theory Spec2Isabelle
  imports Complex_Main "HOL-Library.AList"
begin

section \<open>The curation engine of the mood board page\<close>

text \<open>
  This theory embeds the client component \<^verbatim>\<open>Home\<close> (the page with the lexicons,
  \<^verbatim>\<open>fetchImages\<close>, \<^verbatim>\<open>fillSlots\<close>, \<^verbatim>\<open>refineQueryWith\<close>, \<^verbatim>\<open>handleAccept\<close>,
  \<^verbatim>\<open>handleReject\<close> and \<^verbatim>\<open>analyzePoemAndSearch\<close>).

  Conventions of the embedding.
  \<^item> A JavaScript string is a \<open>string\<close>; the character with code \<open>n\<close> stands for the
    Unicode code point \<open>n\<close>, so the texts covered are those of the Latin-1 range, where
    one character is one UTF-16 unit and \<^verbatim>\<open>length\<close> is the list length.
  \<^item> A JavaScript number that holds a score is the value, a \<open>rat\<close>, of a finite IEEE
    754 double: a decimal literal, a sum and a product are rounded to the nearest
    double, ties to even. \<^verbatim>\<open>NaN\<close>, the infinities and the sign of zero are not
    modelled; the scores of \<^verbatim>\<open>refineQueryWith\<close> are sums of positive terms below 4, one
    for each token, and stay finite for every text a JavaScript string can hold.
    Counters and lengths are \<open>nat\<close>, a slot index is an \<open>int\<close>.
  \<^item> The score object \<^verbatim>\<open>Record<string, number>\<close> is an association list in insertion
    order. The member \<^verbatim>\<open>constructor\<close> that an object literal inherits from its
    prototype is not modelled: for the token \<^verbatim>\<open>constructor\<close> the code reads that
    inherited function instead of a missing entry.
  \<^item> React state and refs are the fields of one record. Every handler, every effect
    and every continuation after an \<^verbatim>\<open>await\<close> runs atomically on the current state,
    with its queued state updates applied at once.
  \<^item> An \<^verbatim>\<open>await\<close> on the network ends a step: the request becomes a pending task
    and its answer is an event of its own, so that user actions and other answers
    can come in between. The top-up effect is an event too. Events are not
    restricted by what the page enables (buttons disabled while loading, the
    dependency list of the effect): the runs of the model include those of the page.
\<close>

subsection \<open>Items\<close>

record item =
  id :: string
  title :: string
  thumb :: string
  full :: string
  creator :: string
  creator_url :: "string option"
  license :: string
  license_version :: "string option"
  source :: "string option"

definition SLOT_COUNT :: nat where
  "SLOT_COUNT = 3"

subsection \<open>Lexicons\<close>

definition COLOR_WORDS :: "string list" where
  "COLOR_WORDS =
    [''black'', ''white'', ''gray'', ''grey'', ''charcoal'', ''silver'', ''gold'', ''golden'',
     ''blue'', ''navy'', ''indigo'', ''teal'', ''cyan'', ''turquoise'',
     ''red'', ''crimson'', ''scarlet'', ''maroon'',
     ''green'', ''emerald'', ''olive'', ''sage'',
     ''yellow'', ''amber'', ''ochre'', ''ocher'', ''mustard'',
     ''purple'', ''violet'', ''magenta'', ''lilac'',
     ''orange'', ''rust'', ''copper'', ''bronze'',
     ''brown'', ''beige'', ''tan'', ''sepia'',
     ''pink'', ''peach'', ''rose'']"

definition MOOD_WORDS :: "string list" where
  "MOOD_WORDS =
    [''lonely'', ''solitary'', ''melancholy'', ''wistful'', ''moody'', ''somber'', ''brooding'',
     ''serene'', ''calm'', ''peaceful'', ''tender'', ''nostalgic'', ''yearning'', ''eerie'',
     ''ominous'']"

definition PHOTO_COMPOSITION :: "string list" where
  "PHOTO_COMPOSITION =
    [''silhouette'', ''portrait'', ''landscape'', ''wide'', ''aerial'', ''macro'', ''minimalist'',
     ''grainy'', ''film'', ''bokeh'', ''long-exposure'', ''lowlight'', ''low-light'',
     ''horizon'', ''skyline'', ''shore'', ''cliff'', ''alley'', ''street'', ''night'', ''dawn'',
     ''dusk'', ''rain'', ''fog'', ''mist'', ''snow'', ''storm'', ''neon'', ''reflections'']"

definition STOP :: "string list" where
  "STOP =
    [''the'', ''a'', ''an'', ''and'', ''or'', ''of'', ''in'', ''on'', ''at'', ''to'', ''for'', ''with'',
     ''from'', ''by'', ''into'', ''over'',
     ''is'', ''are'', ''was'', ''were'', ''be'', ''been'', ''being'', ''it'', ''its'', ''that'',
     ''this'', ''these'', ''those'', ''as'',
     ''but'', ''if'', ''then'', ''than'', ''so'', ''such'', ''very'', ''not'', ''no'', ''off'',
     ''out'', ''up'', ''down'', ''near'', ''far'',
     ''your'', ''my'', ''our'', ''their'', ''his'', ''her'', ''they'', ''them'', ''you'', ''we'',
     ''i'']"

subsection \<open>Characters and \<^verbatim>\<open>tokenize\<close>\<close>

definition code :: "char \<Rightarrow> nat" where
  "code c = of_char c"

text \<open>The classes \<^verbatim>\<open>\p{L}\<close>, \<^verbatim>\<open>\p{N}\<close> and \<^verbatim>\<open>\s\<close> on the code points below 256.\<close>

definition isLetter :: "char \<Rightarrow> bool" where
  "isLetter c = (let n = code c in
     (65 \<le> n \<and> n \<le> 90) \<or> (97 \<le> n \<and> n \<le> 122) \<or> n = 170 \<or> n = 181 \<or> n = 186
     \<or> (192 \<le> n \<and> n \<le> 214) \<or> (216 \<le> n \<and> n \<le> 246) \<or> 248 \<le> n)"

definition isNumber :: "char \<Rightarrow> bool" where
  "isNumber c = (let n = code c in
     (48 \<le> n \<and> n \<le> 57) \<or> n = 178 \<or> n = 179 \<or> n = 185 \<or> (188 \<le> n \<and> n \<le> 190))"

definition isSpace :: "char \<Rightarrow> bool" where
  "isSpace c = (let n = code c in (9 \<le> n \<and> n \<le> 13) \<or> n = 32 \<or> n = 160)"

definition toLowerChar :: "char \<Rightarrow> char" where
  "toLowerChar c = (let n = code c in
     if (65 \<le> n \<and> n \<le> 90) \<or> (192 \<le> n \<and> n \<le> 214) \<or> (216 \<le> n \<and> n \<le> 222)
     then char_of (n + 32) else c)"

definition toLowerCase :: "string \<Rightarrow> string" where
  "toLowerCase text = map toLowerChar text"

text \<open>\<^verbatim>\<open>.replace(/[^\p{L}\p{N}\s-]/gu, " ")\<close>\<close>

definition replacePunct :: "string \<Rightarrow> string" where
  "replacePunct text =
     map (\<lambda>c. if isLetter c \<or> isNumber c \<or> isSpace c \<or> c = CHR ''-'' then c else CHR '' '') text"

text \<open>
  \<^verbatim>\<open>.split(/\s+/)\<close>: the pieces between maximal runs of white space; a text that starts
  or ends with white space yields an empty first or last piece. The first argument
  holds the piece being read, reversed.
\<close>

function splitSpaces :: "string \<Rightarrow> string \<Rightarrow> string list" where
  "splitSpaces cur [] = [rev cur]"
| "splitSpaces cur (c # cs) =
     (if isSpace c then rev cur # splitSpaces [] (dropWhile isSpace cs)
      else splitSpaces (c # cur) cs)"
  by pat_completeness auto
termination
  by (relation "measure (\<lambda>(cur, cs). length cs)")
     (auto simp: length_dropWhile_le less_Suc_eq_le)

definition tokenize :: "string \<Rightarrow> string list" where
  "tokenize text = filter (\<lambda>t. t \<noteq> []) (splitSpaces [] (replacePunct (toLowerCase text)))"

subsection \<open>Numbers\<close>

text \<open>
  The number of binary digits of a positive integer, the powers of two, and the
  exponent \<open>e\<close> with \<open>2^e \<le> a < 2^(e+1)\<close> of a positive rational.
\<close>

function bitLength :: "int \<Rightarrow> int" where
  "bitLength n = (if n \<le> 0 then 0 else bitLength (n div 2) + 1)"
  by pat_completeness auto
termination
proof (relation "measure nat")
  show "wf (measure nat)" by simp
next
  fix n :: int
  assume "\<not> n \<le> 0"
  then have "nat (n div 2) < nat n" by linarith
  then show "(n div 2, n) \<in> measure nat" by simp
qed

declare bitLength.simps [simp del]

definition pow2 :: "int \<Rightarrow> rat" where
  "pow2 e = (if 0 \<le> e then 2 ^ nat e else 1 / 2 ^ nat (- e))"

definition floorLog2 :: "rat \<Rightarrow> int" where
  "floorLog2 a =
     (case quotient_of a of
        (p, q) \<Rightarrow>
          (let d = bitLength p - bitLength q
           in if pow2 d \<le> a then d else d - 1))"

definition roundHalfEven :: "rat \<Rightarrow> int" where
  "roundHalfEven q =
     (let f = \<lfloor>q\<rfloor>; r = q - of_int f
      in if r < 1 / 2 then f else if 1 / 2 < r then f + 1 else if even f then f else f + 1)"

text \<open>
  The double nearest to a rational, ties to even: 53 significant bits, and below
  \<open>2^-1022\<close> the fixed spacing \<open>2^-1074\<close> of the subnormal numbers. The exponent is not
  bounded above: a result of \<open>2^1024\<close> or more stands for what the code has as
  \<^verbatim>\<open>Infinity\<close>.
\<close>

definition roundDouble :: "rat \<Rightarrow> rat" where
  "roundDouble x =
     (if x = 0 then 0
      else
        (let a = \<bar>x\<bar>;
             e = max (floorLog2 a) (- 1022);
             u = pow2 (e - 52);
             m = of_int (roundHalfEven (a / u)) * u
         in if x < 0 then - m else m))"

definition addDouble :: "rat \<Rightarrow> rat \<Rightarrow> rat" where
  "addDouble a b = roundDouble (a + b)"

definition mulDouble :: "rat \<Rightarrow> rat \<Rightarrow> rat" where
  "mulDouble a b = roundDouble (a * b)"

subsection \<open>Biases\<close>

definition endsWith :: "string \<Rightarrow> string \<Rightarrow> bool" where
  "endsWith w suf = (length suf \<le> length w \<and> drop (length w - length suf) w = suf)"

text \<open>
  The literals \<^verbatim>\<open>1.2\<close>, \<^verbatim>\<open>1.15\<close>, \<^verbatim>\<open>1.1\<close>, \<^verbatim>\<open>1.05\<close>, \<^verbatim>\<open>1.25\<close> are the doubles nearest
  to these decimals, and \<^verbatim>\<open>b *= x\<close> is a double multiplication.
\<close>

definition posBias :: "string \<Rightarrow> rat" where
  "posBias word =
     (if list_ex (endsWith word) [''ful'', ''less'', ''ous'', ''ive'', ''ish'', ''y'', ''ly'']
        then roundDouble (6 / 5)
      else if list_ex (endsWith word) [''tion'', ''ment'', ''ness'', ''scape'', ''graphy'']
        then roundDouble (23 / 20)
      else if CHR ''-'' \<in> set word then roundDouble (11 / 10)
      else if 7 \<le> length word then roundDouble (21 / 20)
      else 1)"

definition domainBias :: "string \<Rightarrow> rat" where
  "domainBias word =
     (let b0 = 1;
          b1 = (if word \<in> set COLOR_WORDS then mulDouble b0 (roundDouble (5 / 4)) else b0);
          b2 = (if word \<in> set MOOD_WORDS then mulDouble b1 (roundDouble (6 / 5)) else b1);
          b3 = (if word \<in> set PHOTO_COMPOSITION then mulDouble b2 (roundDouble (23 / 20)) else b2)
      in b3)"

subsection \<open>The score table\<close>

type_synonym scores = "(string \<times> rat) list"

text \<open>\<^verbatim>\<open>scores[w] ?? 0\<close>, for a key that the prototype of the object does not have.\<close>

definition scoreOr0 :: "scores \<Rightarrow> string \<Rightarrow> rat" where
  "scoreOr0 sc w = (case map_of sc w of None \<Rightarrow> 0 | Some v \<Rightarrow> v)"

text \<open>\<^verbatim>\<open>scores[w] = (scores[w] ?? 0) + inc\<close>, a double addition.\<close>

definition bump :: "string \<Rightarrow> rat \<Rightarrow> scores \<Rightarrow> scores" where
  "bump w inc sc = AList.update w (addDouble (scoreOr0 sc w) inc) sc"

fun scoreTokens :: "string list \<Rightarrow> rat \<Rightarrow> scores \<Rightarrow> scores" where
  "scoreTokens [] weight sc = sc"
| "scoreTokens (w # ws) weight sc =
     (if w \<in> set STOP \<or> length w < 3 then scoreTokens ws weight sc
      else scoreTokens ws weight
             (bump w (mulDouble (mulDouble weight (posBias w)) (domainBias w)) sc))"

definition scoreTokensFrom :: "string \<Rightarrow> rat \<Rightarrow> scores \<Rightarrow> scores" where
  "scoreTokensFrom text weight sc = scoreTokens (tokenize text) weight sc"

fun preseedTokens :: "string list \<Rightarrow> scores \<Rightarrow> scores" where
  "preseedTokens [] sc = sc"
| "preseedTokens (w # ws) sc =
     (if w \<in> set COLOR_WORDS then preseedTokens ws (bump w (roundDouble (3 / 5)) sc)
      else preseedTokens ws sc)"

definition preseedColorHintsFromUserText :: "scores \<Rightarrow> string \<Rightarrow> scores" where
  "preseedColorHintsFromUserText sc text = preseedTokens (tokenize text) sc"

subsection \<open>\<^verbatim>\<open>topKeywords\<close>\<close>

text \<open>
  \<^verbatim>\<open>Object.entries\<close> lists the keys that are array indices first, in ascending numeric
  order, and then the other keys in insertion order. An array index is a decimal
  numeral without a leading zero that is below \<open>2^32 - 1\<close>.
\<close>

definition isAsciiDigit :: "char \<Rightarrow> bool" where
  "isAsciiDigit c = (48 \<le> code c \<and> code c \<le> 57)"

definition decimalValue :: "string \<Rightarrow> int" where
  "decimalValue w = fold (\<lambda>c n. 10 * n + (int (code c) - 48)) w 0"

definition isArrayIndex :: "string \<Rightarrow> bool" where
  "isArrayIndex w =
     (if w = [] then False
      else if list_ex (\<lambda>c. \<not> isAsciiDigit c) w then False
      else if hd w = CHR ''0'' then w = ''0''
      else decimalValue w < 4294967295)"

definition objectEntries :: "scores \<Rightarrow> (string \<times> rat) list" where
  "objectEntries sc =
     sort_key (\<lambda>p. decimalValue (fst p)) (filter (\<lambda>p. isArrayIndex (fst p)) sc)
     @ filter (\<lambda>p. \<not> isArrayIndex (fst p)) sc"

text \<open>
  \<^verbatim>\<open>w.replace(/(s|es|ed|ing|ly)$/, "")\<close>: the leftmost match is the longest of the
  suffixes that fit.
\<close>

definition stripSuffix :: "string \<Rightarrow> string" where
  "stripSuffix w =
     (if endsWith w ''ing'' then take (length w - 3) w
      else if endsWith w ''es'' \<or> endsWith w ''ed'' \<or> endsWith w ''ly'' then take (length w - 2) w
      else if endsWith w ''s'' then take (length w - 1) w
      else w)"

text \<open>
  The comparator \<^verbatim>\<open>(a,b) => b[1]-a[1]\<close> of the stable \<^verbatim>\<open>sort\<close> has the sign of the
  exact difference of two finite doubles, so the entries are sorted by descending
  score and keep their order where the scores are equal. Then the loop of
  \<^verbatim>\<open>topKeywords\<close> over the sorted words, with \<^verbatim>\<open>picked\<close> and \<^verbatim>\<open>seenRoots\<close>.
\<close>

fun pickWords :: "nat \<Rightarrow> string list \<Rightarrow> string list \<Rightarrow> string set \<Rightarrow> string list" where
  "pickWords mx [] picked seenRoots = picked"
| "pickWords mx (w # ws) picked seenRoots =
     (let root = stripSuffix w in
      if root \<in> seenRoots then pickWords mx ws picked seenRoots
      else if mx \<le> length (picked @ [w]) then picked @ [w]
      else pickWords mx ws (picked @ [w]) (insert root seenRoots))"

definition topKeywords :: "scores \<Rightarrow> nat \<Rightarrow> string list" where
  "topKeywords sc mx =
     pickWords mx (map fst (sort_key (\<lambda>p. - snd p) (objectEntries sc))) [] {}"

fun joinSpace :: "string list \<Rightarrow> string" where
  "joinSpace [] = []"
| "joinSpace [w] = w"
| "joinSpace (w # ws) = w @ '' '' @ joinSpace ws"

subsection \<open>The session\<close>

text \<open>
  The state of the component: the \<^verbatim>\<open>useState\<close> cells, then the three \<^verbatim>\<open>useRef\<close>
  cells.
\<close>

record session =
  userText :: string
  activeQuery :: string
  itemsQueue :: "item list"
  visible :: "item list"
  kept :: "item list"
  seenIds :: "string set"
  page :: nat
  loading :: bool
  error :: "string option"
  seenIdsRef :: "string set"
  fetchingRef :: bool
  currentRequestRef :: nat

definition initialSession :: session where
  "initialSession =
     \<lparr> userText = ''lonely, dark, single figure, horizon'',
       activeQuery = ''lonely, dark, single figure, horizon'',
       itemsQueue = [], visible = [], kept = [], seenIds = {},
       page = 1, loading = False, error = None,
       seenIdsRef = {}, fetchingRef = False, currentRequestRef = 0 \<rparr>"

subsection \<open>\<^verbatim>\<open>refineQueryWith\<close>\<close>

text \<open>
  The local \<^verbatim>\<open>keywords\<close> of \<^verbatim>\<open>refineQueryWith\<close>, with the weights \<^verbatim>\<open>1.0\<close>, \<^verbatim>\<open>1.4\<close>
  and \<^verbatim>\<open>1.8\<close>, then the function itself.
\<close>

definition refineKeywords :: "item \<Rightarrow> session \<Rightarrow> string list" where
  "refineKeywords it s =
     (let sc0 = preseedColorHintsFromUserText [] (userText s);
          sc1 = scoreTokensFrom (activeQuery s) 1 sc0;
          sc2 = fold (\<lambda>k sc. scoreTokensFrom (title k) (roundDouble (7 / 5)) sc)
                  (take 5 (kept s)) sc1;
          sc3 = scoreTokensFrom (title it) (roundDouble (9 / 5)) sc2
      in topKeywords sc3 12)"

definition refineQueryWith :: "item \<Rightarrow> session \<Rightarrow> string" where
  "refineQueryWith it s =
     (let refined = joinSpace (refineKeywords it s)
      in if refined = [] then activeQuery s else refined)"

subsection \<open>\<^verbatim>\<open>fetchImages\<close>\<close>

text \<open>
  What comes back from \<^verbatim>\<open>/api/openverse\<close>: the items of an OK response
  (\<^verbatim>\<open>j.items ?? []\<close>), or a failure with the message of the error thrown, if it has
  one. How the message is put together from the status code is not modelled.
\<close>

datatype fetch_response = Items "item list" | Failed "string option"

text \<open>The part of \<^verbatim>\<open>fetchImages\<close> before its \<^verbatim>\<open>await\<close>, once the guard has let it pass.\<close>

definition fetchImages_begin :: "session \<Rightarrow> session" where
  "fetchImages_begin s = s\<lparr> fetchingRef := True, loading := True, error := None \<rparr>"

definition freshItems :: "session \<Rightarrow> item list \<Rightarrow> item list" where
  "freshItems s its = filter (\<lambda>it. id it \<notin> seenIdsRef s) its"

definition incomingItems :: "session \<Rightarrow> item list \<Rightarrow> item list" where
  "incomingItems s fresh = filter (\<lambda>it. id it \<notin> set (map id (itemsQueue s))) fresh"

text \<open>
  The part of \<^verbatim>\<open>fetchImages\<close> after the response has arrived, with the \<^verbatim>\<open>finally\<close>
  block; \<open>app\<close> is \<^verbatim>\<open>opts?.append\<close>, the first component is the number returned.
\<close>

definition fetchImages_end :: "bool \<Rightarrow> fetch_response \<Rightarrow> session \<Rightarrow> nat \<times> session" where
  "fetchImages_end app r s =
     (case r of
        Items its \<Rightarrow>
          (let fresh = freshItems s its;
               incoming = incomingItems s fresh;
               q = (if app then itemsQueue s @ incoming else incoming)
           in (length fresh, s\<lparr> itemsQueue := q, loading := False, fetchingRef := False \<rparr>))
      | Failed msg \<Rightarrow>
          (0, s\<lparr> error := Some (case msg of None \<Rightarrow> ''Search failed'' | Some m \<Rightarrow> m),
                 loading := False, fetchingRef := False \<rparr>))"

subsection \<open>\<^verbatim>\<open>fillSlots\<close>\<close>

text \<open>
  The \<^verbatim>\<open>while\<close> loop, on \<^verbatim>\<open>nextVisible\<close>, \<^verbatim>\<open>nextQueue\<close>, \<^verbatim>\<open>onScreen\<close> and
  \<^verbatim>\<open>newlyShown\<close>; the last argument is \<^verbatim>\<open>seenIdsRef.current\<close>.
\<close>

fun fillLoop ::
  "item list \<Rightarrow> item list \<Rightarrow> string set \<Rightarrow> string list \<Rightarrow> string set
     \<Rightarrow> item list \<times> item list \<times> string list" where
  "fillLoop nextVisible [] onScreen newlyShown seen = (nextVisible, [], newlyShown)"
| "fillLoop nextVisible (candidate # nextQueue) onScreen newlyShown seen =
     (if length nextVisible < SLOT_COUNT then
        (if id candidate \<in> onScreen \<or> id candidate \<in> seen
         then fillLoop nextVisible nextQueue onScreen newlyShown seen
         else fillLoop (nextVisible @ [candidate]) nextQueue (insert (id candidate) onScreen)
                (newlyShown @ [id candidate]) seen)
      else (nextVisible, candidate # nextQueue, newlyShown))"

text \<open>
  \<^verbatim>\<open>fillSlots\<close> reads \<^verbatim>\<open>visible\<close> and \<^verbatim>\<open>itemsQueue\<close> from the closure of the render
  that created it: they are the first two arguments.
\<close>

definition fillSlotsWith :: "item list \<Rightarrow> item list \<Rightarrow> session \<Rightarrow> session" where
  "fillSlotsWith vis queue s =
     (if SLOT_COUNT \<le> length vis then s
      else if length queue = 0 then s
      else
        (case fillLoop vis queue (set (map id vis)) [] (seenIdsRef s) of
           (nextVisible, nextQueue, newlyShown) \<Rightarrow>
             if length newlyShown = 0 then s
             else
               (let updatedSeen = seenIdsRef s \<union> set newlyShown
                in s\<lparr> seenIdsRef := updatedSeen, seenIds := updatedSeen,
                      visible := nextVisible, itemsQueue := nextQueue \<rparr>)))"

definition fillSlots :: "session \<Rightarrow> session" where
  "fillSlots s = fillSlotsWith (visible s) (itemsQueue s) s"

text \<open>The effect on \<^verbatim>\<open>[itemsQueue, visible.length]\<close>.\<close>

definition topUpEffect :: "session \<Rightarrow> session" where
  "topUpEffect s =
     (if length (visible s) < SLOT_COUNT \<and> 0 < length (itemsQueue s) then fillSlots s else s)"

subsection \<open>Slot actions\<close>

text \<open>\<^verbatim>\<open>visible[idx]\<close>: \<^verbatim>\<open>undefined\<close> outside the array.\<close>

definition itemAt :: "item list \<Rightarrow> int \<Rightarrow> item option" where
  "itemAt xs idx = (if 0 \<le> idx \<and> idx < int (length xs) then Some (xs ! nat idx) else None)"

text \<open>
  \<^verbatim>\<open>next.splice(idx, 1)\<close>: a negative start counts from the end, a start beyond the
  end removes nothing.
\<close>

definition spliceOne :: "int \<Rightarrow> 'a list \<Rightarrow> 'a list" where
  "spliceOne idx xs =
     (let n = int (length xs);
          start = nat (if idx < 0 then max (n + idx) 0 else min idx n)
      in take start xs @ drop (Suc start) xs)"

definition removeSlotAt :: "int \<Rightarrow> session \<Rightarrow> session" where
  "removeSlotAt idx s = s\<lparr> visible := spliceOne idx (visible s) \<rparr>"

definition markSeen :: "string \<Rightarrow> session \<Rightarrow> session" where
  "markSeen i s = (let next = insert i (seenIds s) in s\<lparr> seenIds := next, seenIdsRef := next \<rparr>)"

subsection \<open>Requests in flight\<close>

text \<open>
  A request that has been sent and not answered is a task. A fetch task records the
  \<^verbatim>\<open>append\<close> option of the call and who awaits it: nobody (\<open>Plain\<close>: the mount
  effect, \<^verbatim>\<open>handleAccept\<close>, \<^verbatim>\<open>handleReject\<close>), the optimistic fetch of
  \<^verbatim>\<open>analyzePoemAndSearch\<close> with its \<^verbatim>\<open>myReq\<close>, or its refined fetch with \<^verbatim>\<open>myReq\<close>,
  \<^verbatim>\<open>optimisticGot\<close> and \<^verbatim>\<open>refined\<close>. \<open>AiTask\<close> is the call of \<^verbatim>\<open>/api/analyze\<close>,
  \<open>JsonTask\<close> the reading of its body by \<^verbatim>\<open>aiResp.json()\<close>, both with \<^verbatim>\<open>myReq\<close> and
  \<^verbatim>\<open>optimisticGot\<close>.
\<close>

datatype awaiter = Plain | Optimistic nat | Refined nat nat string

datatype task = FetchTask bool awaiter | AiTask nat nat | JsonTask nat nat

record world =
  sess :: session
  pending :: "task list"

text \<open>
  \<^verbatim>\<open>aiResp\<close>: \<^verbatim>\<open>null\<close> after a timeout, an abort or a network error (the
  \<^verbatim>\<open>.catch\<close>), a response that is not OK, or an OK response.
\<close>

datatype ai_response = AiNull | AiNotOk | AiOk

text \<open>
  What \<^verbatim>\<open>analysis?.search_query?.trim()\<close> gives after \<^verbatim>\<open>await aiResp.json()\<close>: an
  exception (the body does not parse, or \<^verbatim>\<open>search_query\<close> has no \<^verbatim>\<open>trim\<close>) with its
  message if any, \<^verbatim>\<open>undefined\<close>, or the trimmed string.
\<close>

datatype analysis = Throws "string option" | NoQuery | Query string

definition trim :: "string \<Rightarrow> string" where
  "trim t = rev (dropWhile isSpace (rev (dropWhile isSpace t)))"

definition removeTask :: "nat \<Rightarrow> task list \<Rightarrow> task list" where
  "removeTask k ts = take k ts @ drop (Suc k) ts"

text \<open>The \<^verbatim>\<open>finally\<close> block of \<^verbatim>\<open>analyzePoemAndSearch\<close>.\<close>

definition analyzeFinally :: "nat \<Rightarrow> session \<Rightarrow> session" where
  "analyzeFinally myReq s = (if myReq = currentRequestRef s then s\<lparr> loading := False \<rparr> else s)"

text \<open>What the awaiter of a fetch does with the number that \<^verbatim>\<open>fetchImages\<close> returned.\<close>

definition afterFetch :: "awaiter \<Rightarrow> nat \<Rightarrow> world \<Rightarrow> world" where
  "afterFetch a got w =
     (case a of
        Plain \<Rightarrow> w
      | Optimistic myReq \<Rightarrow> w\<lparr> pending := pending w @ [AiTask myReq got] \<rparr>
      | Refined myReq optimisticGot refined \<Rightarrow>
          (if myReq \<noteq> currentRequestRef (sess w) then w
           else if 0 < got
             then w\<lparr> sess := analyzeFinally myReq ((sess w)\<lparr> activeQuery := refined \<rparr>) \<rparr>
           else if optimisticGot = 0
             then w\<lparr> sess := analyzeFinally myReq
                        ((sess w)\<lparr> error := Some ''No matches found. Try broader words.'' \<rparr>) \<rparr>
           else w\<lparr> sess := analyzeFinally myReq (sess w) \<rparr>))"

text \<open>
  A call of \<^verbatim>\<open>fetchImages\<close>: with a fetch in flight it returns 0 at once and the
  awaiter goes on; otherwise the request leaves.
\<close>

definition callFetch :: "bool \<Rightarrow> awaiter \<Rightarrow> world \<Rightarrow> world" where
  "callFetch app a w =
     (if fetchingRef (sess w) then afterFetch a 0 w
      else w\<lparr> sess := fetchImages_begin (sess w),
              pending := pending w @ [FetchTask app a] \<rparr>)"

definition handleAccept :: "int \<Rightarrow> world \<Rightarrow> world" where
  "handleAccept idx w =
     (let s = sess w in
      case itemAt (visible s) idx of
        None \<Rightarrow> w
      | Some it \<Rightarrow>
          (let s1 = s\<lparr> kept := it # kept s \<rparr>;
               s2 = markSeen (id it) s1;
               s3 = removeSlotAt idx s2;
               refined = refineQueryWith it s;
               s4 = s3\<lparr> activeQuery := refined, page := 1, itemsQueue := [] \<rparr>
           in callFetch False Plain (w\<lparr> sess := s4 \<rparr>)))"

definition handleReject :: "int \<Rightarrow> world \<Rightarrow> world" where
  "handleReject idx w =
     (let s = sess w in
      case itemAt (visible s) idx of
        None \<Rightarrow> w
      | Some it \<Rightarrow>
          (let s1 = markSeen (id it) s;
               s2 = removeSlotAt idx s1;
               s3 = (if length (itemsQueue s) = 0
                     then fillSlotsWith (visible s) (itemsQueue s) s2 else s2)
           in if length (itemsQueue s) < 3 \<and> \<not> loading s
              then callFetch True Plain (w\<lparr> sess := s3\<lparr> page := page s + 1 \<rparr> \<rparr>)
              else w\<lparr> sess := s3 \<rparr>))"

subsection \<open>\<^verbatim>\<open>analyzePoemAndSearch\<close>\<close>

text \<open>Up to the first \<^verbatim>\<open>await\<close>.\<close>

definition analyzePoemAndSearch :: "string \<Rightarrow> world \<Rightarrow> world" where
  "analyzePoemAndSearch poem w =
     (let s = sess w;
          myReq = currentRequestRef s + 1;
          s1 = s\<lparr> error := None, loading := True, currentRequestRef := myReq,
                  page := 1, itemsQueue := [], visible := [] \<rparr>
      in callFetch False (Optimistic myReq) (w\<lparr> sess := s1 \<rparr>))"

text \<open>
  From the arrival of \<^verbatim>\<open>aiResp\<close> to the next \<^verbatim>\<open>await\<close> or the end; the caller has
  taken the task out of \<open>pending\<close>.
\<close>

definition onAiResponse :: "nat \<Rightarrow> nat \<Rightarrow> ai_response \<Rightarrow> world \<Rightarrow> world" where
  "onAiResponse myReq optimisticGot r w =
     (if myReq \<noteq> currentRequestRef (sess w) then w\<lparr> sess := analyzeFinally myReq (sess w) \<rparr>
      else
        (case r of
           AiNull \<Rightarrow> w\<lparr> sess := analyzeFinally myReq ((sess w)\<lparr> loading := False \<rparr>) \<rparr>
         | AiNotOk \<Rightarrow> w\<lparr> sess := analyzeFinally myReq ((sess w)\<lparr> loading := False \<rparr>) \<rparr>
         | AiOk \<Rightarrow> w\<lparr> pending := pending w @ [JsonTask myReq optimisticGot] \<rparr>))"

text \<open>From the end of \<^verbatim>\<open>aiResp.json()\<close> on.\<close>

definition onAnalysis :: "nat \<Rightarrow> nat \<Rightarrow> analysis \<Rightarrow> world \<Rightarrow> world" where
  "onAnalysis myReq optimisticGot a w =
     (case a of
        Throws msg \<Rightarrow>
          w\<lparr> sess := analyzeFinally myReq
                ((sess w)\<lparr> error := Some (case msg of None \<Rightarrow> ''Analysis failed'' | Some m \<Rightarrow> m) \<rparr>) \<rparr>
      | NoQuery \<Rightarrow> w\<lparr> sess := analyzeFinally myReq (sess w) \<rparr>
      | Query q \<Rightarrow>
          (let refined = trim q in
           if refined \<noteq> [] then callFetch False (Refined myReq optimisticGot refined) w
           else w\<lparr> sess := analyzeFinally myReq (sess w) \<rparr>))"

subsection \<open>Events\<close>

text \<open>
  What can happen to the page: the top-up effect runs, the user accepts or rejects a
  slot, starts an analysis or edits the text, or the answer to the pending task
  number \<open>k\<close> arrives. An answer that does not fit the task at that place is
  ignored. The manual search button is switched off in the source
  (\<^verbatim>\<open>ENABLE_MANUAL_SEARCH = false\<close>) and is left out.
\<close>

datatype event =
    Effect
  | Accept int
  | Reject int
  | Analyze string
  | SetUserText string
  | FetchDone nat fetch_response
  | AiDone nat ai_response
  | JsonDone nat analysis

definition taskAt :: "world \<Rightarrow> nat \<Rightarrow> task option" where
  "taskAt w k = (if k < length (pending w) then Some (pending w ! k) else None)"

definition onFetchDone :: "nat \<Rightarrow> fetch_response \<Rightarrow> world \<Rightarrow> world" where
  "onFetchDone k r w =
     (case taskAt w k of
        Some (FetchTask app a) \<Rightarrow>
          (case fetchImages_end app r (sess w) of
             (got, s') \<Rightarrow> afterFetch a got (w\<lparr> sess := s', pending := removeTask k (pending w) \<rparr>))
      | _ \<Rightarrow> w)"

definition onAiDone :: "nat \<Rightarrow> ai_response \<Rightarrow> world \<Rightarrow> world" where
  "onAiDone k r w =
     (case taskAt w k of
        Some (AiTask myReq optimisticGot) \<Rightarrow>
          onAiResponse myReq optimisticGot r (w\<lparr> pending := removeTask k (pending w) \<rparr>)
      | _ \<Rightarrow> w)"

definition onJsonDone :: "nat \<Rightarrow> analysis \<Rightarrow> world \<Rightarrow> world" where
  "onJsonDone k a w =
     (case taskAt w k of
        Some (JsonTask myReq optimisticGot) \<Rightarrow>
          onAnalysis myReq optimisticGot a (w\<lparr> pending := removeTask k (pending w) \<rparr>)
      | _ \<Rightarrow> w)"

fun step :: "event \<Rightarrow> world \<Rightarrow> world" where
  "step Effect w = w\<lparr> sess := topUpEffect (sess w) \<rparr>"
| "step (Accept idx) w = handleAccept idx w"
| "step (Reject idx) w = handleReject idx w"
| "step (Analyze poem) w = analyzePoemAndSearch poem w"
| "step (SetUserText t) w = w\<lparr> sess := (sess w)\<lparr> userText := t \<rparr> \<rparr>"
| "step (FetchDone k r) w = onFetchDone k r w"
| "step (AiDone k r) w = onAiDone k r w"
| "step (JsonDone k a) w = onJsonDone k a w"

definition run :: "event list \<Rightarrow> world \<Rightarrow> world" where
  "run evs w = fold step evs w"

text \<open>The page after its mount effect: everything cleared, the first fetch sent.\<close>

definition initialWorld :: world where
  "initialWorld =
     callFetch False Plain
       \<lparr> sess = initialSession\<lparr> page := 1, itemsQueue := [], visible := [], kept := [],
                                 seenIds := {} \<rparr>,
         pending = [] \<rparr>"

subsection \<open>Invariants\<close>

text \<open>The set of the ids of a list of items.\<close>

definition ids :: "item list \<Rightarrow> string set" where
  "ids xs = set (map id xs)"

text \<open>
  What holds of the window, the kept list and the seen set in every state, whatever
  the provider answers.
\<close>

definition inv1 :: "session \<Rightarrow> bool" where
  "inv1 s = (length (visible s) \<le> SLOT_COUNT
     \<and> distinct (map id (visible s)) \<and> distinct (map id (kept s))
     \<and> ids (visible s) \<subseteq> seenIdsRef s \<and> ids (kept s) \<subseteq> seenIdsRef s
     \<and> ids (visible s) \<inter> ids (kept s) = {}
     \<and> seenIds s = seenIdsRef s)"

text \<open>What holds of the queue when no answer of the provider repeats an id.\<close>

definition inv2 :: "session \<Rightarrow> bool" where
  "inv2 s = (distinct (map id (itemsQueue s)) \<and> ids (itemsQueue s) \<inter> seenIdsRef s = {})"

text \<open>The queue holds no kept id, whatever the provider answers.\<close>

definition inv3 :: "session \<Rightarrow> bool" where
  "inv3 s = (ids (itemsQueue s) \<inter> ids (kept s) = {})"

text \<open>The part of the session that the invariants speak about.\<close>

definition core :: "session \<Rightarrow> item list \<times> item list \<times> item list \<times> string set \<times> string set" where
  "core s = (itemsQueue s, visible s, kept s, seenIds s, seenIdsRef s)"

text \<open>An event whose provider answer, if it carries one, lists every id once.\<close>

fun uniqueIds :: "event \<Rightarrow> bool" where
  "uniqueIds (FetchDone k (Items its)) = distinct (map id its)"
| "uniqueIds e = True"

subsection \<open>Sample data\<close>

definition mkItem :: "string \<Rightarrow> string \<Rightarrow> item" where
  "mkItem i t = \<lparr> id = i, title = t, thumb = [], full = [], creator = [], creator_url = None,
                  license = [], license_version = None, source = None \<rparr>"

definition pageOne :: "item list" where
  "pageOne = [mkItem ''a'' ''Dark Horizon Silhouette'', mkItem ''b'' ''Lone Tree'',
              mkItem ''c'' ''Night Shore'', mkItem ''d'' ''Fog'', mkItem ''e'' ''Dusk'']"

text \<open>Scenario A: the first fetch brings five items and the window fills.\<close>

definition scenarioA :: world where
  "scenarioA = run [FetchDone 0 (Items pageOne), Effect] initialWorld"

text \<open>
  Two analyses: the second one starts while the first one waits for
  \<^verbatim>\<open>/api/analyze\<close>.
\<close>

definition twoCycles :: world where
  "twoCycles = run [Analyze ''stormy sea'', FetchDone 0 (Items [mkItem ''f'' ''Storm'']), Effect,
                    Analyze ''urban night''] scenarioA"

text \<open>One analysis that waits for \<^verbatim>\<open>/api/analyze\<close>, then for the body of its answer.\<close>

definition oneCycle :: world where
  "oneCycle =
     run [Analyze ''stormy sea'', FetchDone 0 (Items [mkItem ''f'' ''Storm'']), Effect] scenarioA"

definition bodyPending :: world where
  "bodyPending = step (AiDone 0 AiOk) oneCycle"

text \<open>
  A rejection with two items left in the queue sends the fetch of the next page and
  the window is topped up; the next page repeats the two items that were queued and
  brings one new item.
\<close>

definition afterReject :: world where
  "afterReject = run [Reject 0, Effect] scenarioA"

definition pageTwo :: "item list" where
  "pageTwo = [mkItem ''d'' ''Fog'', mkItem ''e'' ''Dusk'', mkItem ''f'' ''Storm'']"

text \<open>A first answer in which the provider lists the id \<open>a\<close> twice.\<close>

definition duplicateAnswer :: world where
  "duplicateAnswer =
     run [FetchDone 0 (Items [mkItem ''x'' ''Mist'', mkItem ''y'' ''Rain'',
                              mkItem ''a'' ''Snow'', mkItem ''a'' ''Snow'']), Effect] initialWorld"

text \<open>
  Scenario A, then the first slot is accepted, the refined fetch brings the next
  page and the window is topped up.
\<close>

definition acceptedRun :: "event list" where
  "acceptedRun =
     [FetchDone 0 (Items pageOne), Effect, Accept 0, FetchDone 0 (Items pageTwo), Effect]"

text \<open>
  The first analysis has got an OK answer from \<^verbatim>\<open>/api/analyze\<close> and reads its body
  when a second analysis starts; then the optimistic fetch of the second analysis
  is answered and the window fills.
\<close>

definition staleBody :: world where
  "staleBody = run [AiDone 0 AiOk, Analyze ''urban night''] oneCycle"

definition pageNight :: "item list" where
  "pageNight = [mkItem ''j'' ''Neon Alley'', mkItem ''k'' ''Rain'', mkItem ''l'' ''Night Street'',
                mkItem ''m'' ''Skyline'']"

definition staleBodyFetched :: world where
  "staleBodyFetched = run [FetchDone 1 (Items pageNight), Effect] staleBody"

text \<open>A session whose texts hold stop words only.\<close>

definition stopWordsOnly :: session where
  "stopWordsOnly = initialSession\<lparr> userText := ''of the'', activeQuery := ''of the'' \<rparr>"

section \<open>Properties\<close>

subsection \<open>The ids of a list of items\<close>

lemma ids_Nil: "ids [] = {}"
  by (simp add: ids_def)

lemma ids_Cons: "ids (x # xs) = insert (id x) (ids xs)"
  by (simp add: ids_def)

lemma ids_append: "ids (xs @ ys) = ids xs \<union> ids ys"
  by (simp add: ids_def)

lemma ids_mono: "set xs \<subseteq> set ys \<Longrightarrow> ids xs \<subseteq> ids ys"
  by (auto simp: ids_def)

lemma in_ids: "x \<in> set xs \<Longrightarrow> id x \<in> ids xs"
  by (simp add: ids_def)

lemma distinct_ids_append:
  "distinct (map id (xs @ ys)) = (distinct (map id xs) \<and> distinct (map id ys) \<and> ids xs \<inter> ids ys = {})"
  by (simp add: ids_def)

lemma distinct_ids_Cons:
  "distinct (map id (x # xs)) = (id x \<notin> ids xs \<and> distinct (map id xs))"
  by (simp add: ids_def)

subsection \<open>The slot-filling loop\<close>

text \<open>
  What the loop returns: the window grown by the items it \<open>added\<close>, which come from
  the part \<open>pre\<close> of the queue that it has read, are new to the screen and to the seen
  set, and have distinct ids; the rest \<open>q'\<close> of the queue is left.
\<close>

lemma fillLoop_spec:
  "fillLoop vis q on new seen = (vis', q', new') \<Longrightarrow>
     \<exists>added pre. vis' = vis @ added \<and> new' = new @ map id added \<and> q = pre @ q'
       \<and> set added \<subseteq> set pre \<and> ids added \<inter> (on \<union> seen) = {}
       \<and> distinct (map id added) \<and> length (vis @ added) \<le> max (length vis) SLOT_COUNT"
proof (induction vis q on new seen arbitrary: vis' q' new' rule: fillLoop.induct)
  case (1 nextVisible onScreen newlyShown seen)
  then show ?case by (simp add: ids_Nil)
next
  case (2 nextVisible candidate nextQueue onScreen newlyShown seen)
  show ?case
  proof (cases "length nextVisible < SLOT_COUNT")
    case False
    with "2.prems" show ?thesis by (auto simp: ids_Nil)
  next
    case room: True
    show ?thesis
    proof (cases "id candidate \<in> onScreen \<or> id candidate \<in> seen")
      case True
      with room "2.prems" have "fillLoop nextVisible nextQueue onScreen newlyShown seen = (vis', q', new')"
        by simp
      from "2.IH"(1) [OF room True this] obtain added pre where
        "vis' = nextVisible @ added" "new' = newlyShown @ map id added" "nextQueue = pre @ q'"
        "set added \<subseteq> set pre" "ids added \<inter> (onScreen \<union> seen) = {}"
        "distinct (map id added)" "length (nextVisible @ added) \<le> max (length nextVisible) SLOT_COUNT"
        by blast
      then have "vis' = nextVisible @ added \<and> new' = newlyShown @ map id added
          \<and> candidate # nextQueue = (candidate # pre) @ q'
          \<and> set added \<subseteq> set (candidate # pre) \<and> ids added \<inter> (onScreen \<union> seen) = {}
          \<and> distinct (map id added) \<and> length (nextVisible @ added) \<le> max (length nextVisible) SLOT_COUNT"
        by auto
      then show ?thesis by blast
    next
      case False
      with room "2.prems" have "fillLoop (nextVisible @ [candidate]) nextQueue
          (insert (id candidate) onScreen) (newlyShown @ [id candidate]) seen = (vis', q', new')"
        by simp
      from "2.IH"(2) [OF room False this] obtain added pre where a:
        "vis' = (nextVisible @ [candidate]) @ added"
        "new' = (newlyShown @ [id candidate]) @ map id added" "nextQueue = pre @ q'"
        "set added \<subseteq> set pre" "ids added \<inter> (insert (id candidate) onScreen \<union> seen) = {}"
        "distinct (map id added)"
        "length ((nextVisible @ [candidate]) @ added) \<le> max (length (nextVisible @ [candidate])) SLOT_COUNT"
        by blast
      have "vis' = nextVisible @ (candidate # added) \<and> new' = newlyShown @ map id (candidate # added)
          \<and> candidate # nextQueue = (candidate # pre) @ q'
          \<and> set (candidate # added) \<subseteq> set (candidate # pre)
          \<and> ids (candidate # added) \<inter> (onScreen \<union> seen) = {}
          \<and> distinct (map id (candidate # added))
          \<and> length (nextVisible @ (candidate # added)) \<le> max (length nextVisible) SLOT_COUNT"
        using a False room by (auto simp: ids_def)
      then show ?thesis by blast
    qed
  qed
qed

lemma fillSlotsWith_empty_queue: "fillSlotsWith vis [] s = s"
  by (simp add: fillSlotsWith_def)

lemma fillSlots_cases:
  obtains (same) "fillSlots s = s"
  | (moved) added pre q' where "itemsQueue s = pre @ q'" "set added \<subseteq> set pre"
      "ids added \<inter> (ids (visible s) \<union> seenIdsRef s) = {}"
      "distinct (map id added)" "length (visible s @ added) \<le> SLOT_COUNT"
      "fillSlots s = s\<lparr> seenIdsRef := seenIdsRef s \<union> ids added,
                           seenIds := seenIdsRef s \<union> ids added,
                           visible := visible s @ added, itemsQueue := q' \<rparr>"
proof (cases "SLOT_COUNT \<le> length (visible s) \<or> length (itemsQueue s) = 0")
  case True
  then have "fillSlots s = s" by (auto simp: fillSlots_def fillSlotsWith_def)
  then show ?thesis by (rule same)
next
  case False
  obtain vis' q' new' where f:
    "fillLoop (visible s) (itemsQueue s) (set (map id (visible s))) [] (seenIdsRef s) = (vis', q', new')"
    by (metis prod_cases3)
  from fillLoop_spec [OF f] obtain added pre where a:
    "vis' = visible s @ added" "new' = map id added" "itemsQueue s = pre @ q'"
    "set added \<subseteq> set pre" "ids added \<inter> (ids (visible s) \<union> seenIdsRef s) = {}"
    "distinct (map id added)" "length (visible s @ added) \<le> max (length (visible s)) SLOT_COUNT"
    by (auto simp: ids_def)
  from False a(7) have len: "length (visible s @ added) \<le> SLOT_COUNT" by simp
  show ?thesis
  proof (cases "new' = []")
    case True
    with False f have "fillSlots s = s" by (simp add: fillSlots_def fillSlotsWith_def)
    then show ?thesis by (rule same)
  next
    case nonempty: False
    with False f a(1,2) have "fillSlots s = s\<lparr> seenIdsRef := seenIdsRef s \<union> ids added,
                           seenIds := seenIdsRef s \<union> ids added,
                           visible := visible s @ added, itemsQueue := q' \<rparr>"
      by (simp add: fillSlots_def fillSlotsWith_def Let_def ids_def)
    with a len show ?thesis by (intro moved)
  qed
qed



lemma fillSlots_inv1:
  assumes "inv1 s" shows "inv1 (fillSlots s)"
proof (cases rule: fillSlots_cases [of s])
  case same
  with assms show ?thesis by simp
next
  case (moved added pre q')
  from assms have i: "distinct (map id (visible s))" "distinct (map id (kept s))"
    "ids (visible s) \<subseteq> seenIdsRef s" "ids (kept s) \<subseteq> seenIdsRef s"
    "ids (visible s) \<inter> ids (kept s) = {}" "seenIds s = seenIdsRef s"
    by (simp_all add: inv1_def)
  have 1: "distinct (map id (visible s @ added))"
    using i(1) moved(3,4) by (simp only: distinct_ids_append) blast
  have 2: "ids (visible s @ added) \<subseteq> seenIdsRef s \<union> ids added"
    using i(3) by (simp only: ids_append) blast
  have 3: "ids (kept s) \<subseteq> seenIdsRef s \<union> ids added"
    using i(4) by blast
  have 4: "ids (visible s @ added) \<inter> ids (kept s) = {}"
    using i(4,5) moved(3) by (simp only: ids_append) blast
  show ?thesis
    unfolding moved(6) inv1_def using 1 2 3 4 i(2) moved(5) by simp
qed

lemma fillSlots_inv2:
  assumes "inv2 s" shows "inv2 (fillSlots s)"
proof (cases rule: fillSlots_cases [of s])
  case same
  with assms show ?thesis by simp
next
  case (moved added pre q')
  from assms moved(1) have d: "distinct (map id (pre @ q'))" and e: "ids (pre @ q') \<inter> seenIdsRef s = {}"
    by (simp_all add: inv2_def)
  from moved(2) have sub: "ids added \<subseteq> ids pre" by (rule ids_mono)
  from d have 1: "distinct (map id q')" and dis: "ids pre \<inter> ids q' = {}"
    by (simp_all only: distinct_ids_append)
  have 2: "ids q' \<inter> (seenIdsRef s \<union> ids added) = {}"
    using e sub dis by (simp only: ids_append) blast
  show ?thesis
    unfolding moved(6) inv2_def using 1 2 by simp
qed

lemma fillSlots_new_visible:
  "ids (visible (fillSlots s)) - ids (visible s) \<subseteq> - seenIdsRef s"
proof (cases rule: fillSlots_cases [of s])
  case same
  then show ?thesis by simp
next
  case (moved added pre q')
  have "ids (visible s @ added) - ids (visible s) \<subseteq> - seenIdsRef s"
    using moved(3) by (simp only: ids_append) blast
  then show ?thesis unfolding moved(6) by simp
qed

lemma fillSlots_queue: "ids (itemsQueue (fillSlots s)) \<subseteq> ids (itemsQueue s)"
proof (cases rule: fillSlots_cases [of s])
  case same
  then show ?thesis by simp
next
  case (moved added pre q')
  then show ?thesis by (simp add: ids_append)
qed

subsection \<open>The core of the session under each operation\<close>

lemma core_eq_inv1: "core s = core s' \<Longrightarrow> inv1 s = inv1 s'"
  by (simp add: core_def inv1_def)

lemma core_eq_inv2: "core s = core s' \<Longrightarrow> inv2 s = inv2 s'"
  by (simp add: core_def inv2_def)

lemma core_analyzeFinally: "core (analyzeFinally myReq s) = core s"
  by (simp add: core_def analyzeFinally_def)

lemma core_afterFetch: "core (sess (afterFetch a got w)) = core (sess w)"
  by (cases a) (simp_all add: afterFetch_def core_analyzeFinally, simp_all add: core_def)

lemma core_callFetch: "core (sess (callFetch app a w)) = core (sess w)"
  by (simp add: callFetch_def core_afterFetch, simp add: core_def fetchImages_begin_def)

lemma core_handleAccept:
  "itemAt (visible (sess w)) idx = Some it \<Longrightarrow>
     core (sess (handleAccept idx w)) =
       ([], spliceOne idx (visible (sess w)), it # kept (sess w),
        insert (id it) (seenIds (sess w)), insert (id it) (seenIds (sess w)))"
  by (simp add: handleAccept_def Let_def core_callFetch, simp add: core_def markSeen_def removeSlotAt_def Let_def)

lemma core_handleReject:
  "itemAt (visible (sess w)) idx = Some it \<Longrightarrow>
     core (sess (handleReject idx w)) =
       (itemsQueue (sess w), spliceOne idx (visible (sess w)), kept (sess w),
        insert (id it) (seenIds (sess w)), insert (id it) (seenIds (sess w)))"
  by (simp add: handleReject_def Let_def core_callFetch fillSlotsWith_empty_queue,
      simp add: core_def markSeen_def removeSlotAt_def Let_def)

lemma core_analyzePoemAndSearch:
  "core (sess (analyzePoemAndSearch poem w)) =
     ([], [], kept (sess w), seenIds (sess w), seenIdsRef (sess w))"
  by (simp add: analyzePoemAndSearch_def Let_def core_callFetch, simp add: core_def)

lemma core_onFetchDone_Items:
  "taskAt w k = Some (FetchTask app a) \<Longrightarrow>
     core (sess (onFetchDone k (Items its) w)) =
       ((if app then itemsQueue (sess w) @ incomingItems (sess w) (freshItems (sess w) its)
         else incomingItems (sess w) (freshItems (sess w) its)),
        visible (sess w), kept (sess w), seenIds (sess w), seenIdsRef (sess w))"
  by (simp add: onFetchDone_def fetchImages_end_def Let_def core_afterFetch, simp add: core_def)


lemma core_onFetchDone_Failed:
  "core (sess (onFetchDone k (Failed m) w)) = core (sess w)"
  by (simp add: onFetchDone_def fetchImages_end_def core_afterFetch split: option.splits task.splits,
      simp add: core_def)

lemma onFetchDone_not_fetch:
  "(\<And>app a. taskAt w k \<noteq> Some (FetchTask app a)) \<Longrightarrow> onFetchDone k r w = w"
  by (simp add: onFetchDone_def split: option.splits task.splits)

lemma core_onAiDone: "core (sess (onAiDone k r w)) = core (sess w)"
  by (simp add: onAiDone_def onAiResponse_def core_analyzeFinally split: option.splits task.splits ai_response.splits,
      simp add: core_def)

lemma core_onJsonDone: "core (sess (onJsonDone k a w)) = core (sess w)"
  by (simp add: onJsonDone_def onAnalysis_def core_analyzeFinally core_callFetch Let_def
        split: option.splits task.splits analysis.splits,
      simp add: core_def)
subsection \<open>The invariants are kept\<close>

lemma spliceOne_valid:
  "0 \<le> idx \<Longrightarrow> idx < int (length xs) \<Longrightarrow>
     spliceOne idx xs = take (nat idx) xs @ drop (Suc (nat idx)) xs"
  by (simp add: spliceOne_def Let_def min_def)

lemma itemAt_Some:
  "itemAt xs idx = Some it \<Longrightarrow>
     nat idx < length xs \<and> it = xs ! nat idx
     \<and> spliceOne idx xs = take (nat idx) xs @ drop (Suc (nat idx)) xs"
  by (auto simp: itemAt_def spliceOne_valid split: if_splits)

lemma splice_decompose:
  assumes "itemAt xs idx = Some it"
  shows "\<exists>pre post. xs = pre @ it # post \<and> spliceOne idx xs = pre @ post"
proof -
  from itemAt_Some [OF assms] have n: "nat idx < length xs" and i: "it = xs ! nat idx"
    and sp: "spliceOne idx xs = take (nat idx) xs @ drop (Suc (nat idx)) xs"
    by simp_all
  from n i have "xs = take (nat idx) xs @ it # drop (Suc (nat idx)) xs"
    by (simp add: id_take_nth_drop)
  with sp show ?thesis by blast
qed

lemma inv1_coreI:
  "core s = (q, v, k, si, sr) \<Longrightarrow> length v \<le> SLOT_COUNT \<Longrightarrow> distinct (map id v) \<Longrightarrow>
     distinct (map id k) \<Longrightarrow> ids v \<subseteq> sr \<Longrightarrow> ids k \<subseteq> sr \<Longrightarrow> ids v \<inter> ids k = {} \<Longrightarrow>
     si = sr \<Longrightarrow> inv1 s"
  by (simp add: core_def inv1_def)

lemma inv2_coreI:
  "core s = (q, v, k, si, sr) \<Longrightarrow> distinct (map id q) \<Longrightarrow> ids q \<inter> sr = {} \<Longrightarrow> inv2 s"
  by (simp add: core_def inv2_def)

lemma inv1_D:
  "inv1 s \<Longrightarrow> length (visible s) \<le> SLOT_COUNT \<and> distinct (map id (visible s))
     \<and> distinct (map id (kept s)) \<and> ids (visible s) \<subseteq> seenIdsRef s \<and> ids (kept s) \<subseteq> seenIdsRef s
     \<and> ids (visible s) \<inter> ids (kept s) = {} \<and> seenIds s = seenIdsRef s"
  by (simp add: inv1_def)

lemma accept_inv1:
  assumes "inv1 (sess w)" shows "inv1 (sess (handleAccept idx w))"
proof (cases "itemAt (visible (sess w)) idx")
  case None
  with assms show ?thesis by (simp add: handleAccept_def)
next
  case (Some it)
  from splice_decompose [OF Some] obtain pre post where
    v: "visible (sess w) = pre @ it # post" and sp: "spliceOne idx (visible (sess w)) = pre @ post"
    by blast
  from assms v have i: "length (pre @ it # post) \<le> SLOT_COUNT"
    "distinct (map id (pre @ it # post))" "distinct (map id (kept (sess w)))"
    "ids (pre @ it # post) \<subseteq> seenIdsRef (sess w)" "ids (kept (sess w)) \<subseteq> seenIdsRef (sess w)"
    "ids (pre @ it # post) \<inter> ids (kept (sess w)) = {}" "seenIds (sess w) = seenIdsRef (sess w)"
    by (simp_all add: inv1_def)
  have 1: "length (pre @ post) \<le> SLOT_COUNT" using i(1) by simp
  have 2: "distinct (map id (pre @ post))" using i(2) by (simp add: ids_def)
  have 3: "distinct (map id (it # kept (sess w)))"
    using i(3,6) by (simp add: distinct_ids_Cons ids_append ids_Cons del: distinct.simps list.map)
  have 4: "ids (pre @ post) \<subseteq> insert (id it) (seenIds (sess w))"
    using i(4,7) by (simp only: ids_append ids_Cons) blast
  have 5: "ids (it # kept (sess w)) \<subseteq> insert (id it) (seenIds (sess w))"
    using i(5,7) by (simp only: ids_Cons) blast
  have notin: "id it \<notin> ids (pre @ post)" using i(2) by (auto simp: ids_def)
  have 6: "ids (pre @ post) \<inter> ids (it # kept (sess w)) = {}"
    using i(6) notin by (simp only: ids_append ids_Cons) blast
  show ?thesis
    by (rule inv1_coreI [OF core_handleAccept [OF Some]]) (simp_all only: sp 1 2 3 4 5 6)
qed

lemma accept_inv2:
  assumes "inv2 (sess w)" shows "inv2 (sess (handleAccept idx w))"
proof (cases "itemAt (visible (sess w)) idx")
  case None
  with assms show ?thesis by (simp add: handleAccept_def)
next
  case (Some it)
  show ?thesis
    by (rule inv2_coreI [OF core_handleAccept [OF Some]]) (simp_all add: ids_Nil)
qed

lemma reject_inv:
  assumes "inv1 (sess w)"
  shows "inv1 (sess (handleReject idx w))"
    and "inv2 (sess w) \<Longrightarrow> inv2 (sess (handleReject idx w))"
proof -
  show "inv1 (sess (handleReject idx w))"
  proof (cases "itemAt (visible (sess w)) idx")
    case None
    with assms show ?thesis by (simp add: handleReject_def)
  next
    case (Some it)
    from splice_decompose [OF Some] obtain pre post where
      v: "visible (sess w) = pre @ it # post" and sp: "spliceOne idx (visible (sess w)) = pre @ post"
      by blast
    from inv1_D [OF assms] v have i: "length (pre @ it # post) \<le> SLOT_COUNT"
      "distinct (map id (pre @ it # post))" "distinct (map id (kept (sess w)))"
      "ids (pre @ it # post) \<subseteq> seenIdsRef (sess w)" "ids (kept (sess w)) \<subseteq> seenIdsRef (sess w)"
      "ids (pre @ it # post) \<inter> ids (kept (sess w)) = {}" "seenIds (sess w) = seenIdsRef (sess w)"
      by simp_all
    have 1: "length (pre @ post) \<le> SLOT_COUNT" using i(1) by simp
    have 2: "distinct (map id (pre @ post))" using i(2) by (simp add: ids_def)
    have 4: "ids (pre @ post) \<subseteq> insert (id it) (seenIds (sess w))"
      using i(4,7) by (simp only: ids_append ids_Cons) blast
    have 5: "ids (kept (sess w)) \<subseteq> insert (id it) (seenIds (sess w))"
      using i(5,7) by blast
    have 6: "ids (pre @ post) \<inter> ids (kept (sess w)) = {}"
      using i(6) by (simp only: ids_append ids_Cons) blast
    show ?thesis
      by (rule inv1_coreI [OF core_handleReject [OF Some]]) (simp_all only: sp 1 2 i(3) 4 5 6)
  qed
next
  assume q: "inv2 (sess w)"
  show "inv2 (sess (handleReject idx w))"
  proof (cases "itemAt (visible (sess w)) idx")
    case None
    with q show ?thesis by (simp add: handleReject_def)
  next
    case (Some it)
    from itemAt_Some [OF Some] have "it \<in> set (visible (sess w))" by simp
    then have "id it \<in> ids (visible (sess w))" by (rule in_ids)
    with inv1_D [OF assms] have seen: "id it \<in> seenIdsRef (sess w)"
      and eq: "seenIds (sess w) = seenIdsRef (sess w)" by blast+
    from q have d: "distinct (map id (itemsQueue (sess w)))"
      and e: "ids (itemsQueue (sess w)) \<inter> seenIdsRef (sess w) = {}"
      by (simp_all add: inv2_def)
    from e seen eq have "ids (itemsQueue (sess w)) \<inter> insert (id it) (seenIds (sess w)) = {}"
      by blast
    with d show ?thesis
      by (intro inv2_coreI [OF core_handleReject [OF Some]])
  qed
qed





lemma analyze_inv1:
  assumes "inv1 (sess w)" shows "inv1 (sess (analyzePoemAndSearch poem w))"
  using inv1_D [OF assms]
  by (intro inv1_coreI [OF core_analyzePoemAndSearch]) (simp_all add: ids_Nil)

lemma analyze_inv2: "inv2 (sess (analyzePoemAndSearch poem w))"
  by (rule inv2_coreI [OF core_analyzePoemAndSearch]) (simp_all add: ids_Nil)

lemma ids_freshItems: "ids (freshItems s its) \<inter> seenIdsRef s = {}"
  by (auto simp: freshItems_def ids_def)

lemma ids_incomingItems:
  "ids (incomingItems s xs) \<subseteq> ids xs \<and> ids (incomingItems s xs) \<inter> ids (itemsQueue s) = {}"
  by (auto simp: incomingItems_def ids_def)

lemma distinct_incoming:
  "distinct (map id its) \<Longrightarrow> distinct (map id (incomingItems s (freshItems s its)))"
  by (simp add: incomingItems_def freshItems_def distinct_map_filter)

lemma fetchDone_inv1:
  assumes "inv1 (sess w)" shows "inv1 (sess (onFetchDone k r w))"
proof (cases "\<exists>app a. taskAt w k = Some (FetchTask app a)")
  case False
  then have "onFetchDone k r w = w" by (intro onFetchDone_not_fetch) blast
  with assms show ?thesis by simp
next
  case True
  then obtain app a where t: "taskAt w k = Some (FetchTask app a)" by blast
  show ?thesis
  proof (cases r)
    case (Items its)
    show ?thesis
      unfolding Items using inv1_D [OF assms]
      by (intro inv1_coreI [OF core_onFetchDone_Items [OF t]]) simp_all
  next
    case (Failed m)
    with assms show ?thesis by (simp add: core_eq_inv1 [OF core_onFetchDone_Failed])
  qed
qed

lemma fetchDone_inv2:
  assumes "inv2 (sess w)" "uniqueIds (FetchDone k r)" shows "inv2 (sess (onFetchDone k r w))"
proof (cases "\<exists>app a. taskAt w k = Some (FetchTask app a)")
  case False
  then have "onFetchDone k r w = w" by (intro onFetchDone_not_fetch) blast
  with assms show ?thesis by simp
next
  case True
  then obtain app a where t: "taskAt w k = Some (FetchTask app a)" by blast
  show ?thesis
  proof (cases r)
    case (Items its)
    let ?inc = "incomingItems (sess w) (freshItems (sess w) its)"
    from assms(2) Items have "distinct (map id its)" by simp
    then have d: "distinct (map id ?inc)" by (rule distinct_incoming)
    from assms(1) have dq: "distinct (map id (itemsQueue (sess w)))"
      and eq: "ids (itemsQueue (sess w)) \<inter> seenIdsRef (sess w) = {}"
      by (simp_all add: inv2_def)
    have sub: "ids ?inc \<subseteq> ids (freshItems (sess w) its)"
      and dis: "ids ?inc \<inter> ids (itemsQueue (sess w)) = {}"
      using ids_incomingItems [of "sess w" "freshItems (sess w) its"] by blast+
    from sub ids_freshItems [of "sess w" its] have ns: "ids ?inc \<inter> seenIdsRef (sess w) = {}"
      by blast
    have 1: "distinct (map id (if app then itemsQueue (sess w) @ ?inc else ?inc))"
      using d dq dis by (simp add: distinct_ids_append Int_commute del: map_append distinct_append)
    have 2: "ids (if app then itemsQueue (sess w) @ ?inc else ?inc) \<inter> seenIdsRef (sess w) = {}"
      using ns eq by (simp add: ids_append Int_Un_distrib2)
    show ?thesis
      unfolding Items by (rule inv2_coreI [OF core_onFetchDone_Items [OF t] 1 2])
  next
    case (Failed m)
    with assms show ?thesis by (simp add: core_eq_inv2 [OF core_onFetchDone_Failed])
  qed
qed

lemma step_inv1: "inv1 (sess w) \<Longrightarrow> inv1 (sess (step e w))"
proof (cases e)
  case Effect
  assume "inv1 (sess w)"
  then show ?thesis unfolding Effect by (simp add: topUpEffect_def fillSlots_inv1)
next
  case (Accept idx)
  assume "inv1 (sess w)"
  then show ?thesis unfolding Accept by (simp add: accept_inv1)
next
  case (Reject idx)
  assume "inv1 (sess w)"
  then show ?thesis unfolding Reject by (simp add: reject_inv(1))
next
  case (Analyze poem)
  assume "inv1 (sess w)"
  then show ?thesis unfolding Analyze by (simp add: analyze_inv1)
next
  case (SetUserText t)
  assume "inv1 (sess w)"
  then show ?thesis unfolding SetUserText by (simp add: inv1_def)
next
  case (FetchDone k r)
  assume "inv1 (sess w)"
  then show ?thesis unfolding FetchDone by (simp add: fetchDone_inv1)
next
  case (AiDone k r)
  assume "inv1 (sess w)"
  then show ?thesis unfolding AiDone by (simp add: core_eq_inv1 [OF core_onAiDone])
next
  case (JsonDone k a)
  assume "inv1 (sess w)"
  then show ?thesis unfolding JsonDone by (simp add: core_eq_inv1 [OF core_onJsonDone])
qed

lemma step_inv2:
  assumes "inv1 (sess w)" "inv2 (sess w)" "uniqueIds e" shows "inv2 (sess (step e w))"
proof (cases e)
  case Effect
  from assms(2) show ?thesis unfolding Effect by (simp add: topUpEffect_def fillSlots_inv2)
next
  case (Accept idx)
  from assms(2) show ?thesis unfolding Accept by (simp add: accept_inv2)
next
  case (Reject idx)
  from assms(1,2) show ?thesis unfolding Reject by (simp add: reject_inv(2))
next
  case (Analyze poem)
  show ?thesis unfolding Analyze by (simp add: analyze_inv2)
next
  case (SetUserText t)
  from assms(2) show ?thesis unfolding SetUserText by (simp add: inv2_def)
next
  case (FetchDone k r)
  from assms(2,3) show ?thesis unfolding FetchDone by (simp add: fetchDone_inv2)
next
  case (AiDone k r)
  from assms(2) show ?thesis unfolding AiDone by (simp add: core_eq_inv2 [OF core_onAiDone])
next
  case (JsonDone k a)
  from assms(2) show ?thesis unfolding JsonDone by (simp add: core_eq_inv2 [OF core_onJsonDone])
qed

lemma run_inv1: "inv1 (sess w) \<Longrightarrow> inv1 (sess (run evs w))"
proof (induction evs arbitrary: w)
  case Nil
  then show ?case by (simp add: run_def)
next
  case (Cons e evs)
  from Cons.prems have "inv1 (sess (step e w))" by (rule step_inv1)
  then have "inv1 (sess (run evs (step e w)))" by (rule Cons.IH)
  then show ?case by (simp add: run_def)
qed

lemma run_inv2:
  "inv1 (sess w) \<Longrightarrow> inv2 (sess w) \<Longrightarrow> list_all uniqueIds evs \<Longrightarrow> inv2 (sess (run evs w))"
proof (induction evs arbitrary: w)
  case Nil
  then show ?case by (simp add: run_def)
next
  case (Cons e evs)
  from Cons.prems have u: "uniqueIds e" and us: "list_all uniqueIds evs" by simp_all
  from Cons.prems(1) have 1: "inv1 (sess (step e w))" by (rule step_inv1)
  from Cons.prems(1,2) u have 2: "inv2 (sess (step e w))" by (rule step_inv2)
  from 1 2 us have "inv2 (sess (run evs (step e w)))" by (rule Cons.IH)
  then show ?case by (simp add: run_def)
qed

lemma initial_inv: "inv1 (sess initialWorld) \<and> inv2 (sess initialWorld)"
proof -
  have "core (sess initialWorld) = ([], [], [], {}, {})"
    by (simp add: initialWorld_def core_callFetch, simp add: core_def initialSession_def)
  then show ?thesis
    by (auto intro!: inv1_coreI inv2_coreI simp: ids_Nil)
qed

lemma inv3_coreI:
  "core s = (q, v, k, si, sr) \<Longrightarrow> ids q \<inter> ids k = {} \<Longrightarrow> inv3 s"
  by (simp add: core_def inv3_def)

lemma core_eq_inv3: "core s = core s' \<Longrightarrow> inv3 s = inv3 s'"
  by (simp add: core_def inv3_def)

lemma fillSlots_kept: "kept (fillSlots s) = kept s"
proof (cases rule: fillSlots_cases [of s])
  case same
  then show ?thesis by simp
next
  case (moved added pre q')
  show ?thesis unfolding moved(6) by simp
qed

lemma step_inv3:
  assumes "inv1 (sess w)" "inv3 (sess w)" shows "inv3 (sess (step e w))"
proof (cases e)
  case Effect
  from assms(2) fillSlots_queue [of "sess w"]
  have "ids (itemsQueue (fillSlots (sess w))) \<inter> ids (kept (sess w)) = {}"
    unfolding inv3_def by blast
  with assms(2) show ?thesis
    unfolding Effect by (simp add: topUpEffect_def inv3_def fillSlots_kept)
next
  case (Accept idx)
  show ?thesis
  proof (cases "itemAt (visible (sess w)) idx")
    case None
    with assms(2) show ?thesis unfolding Accept by (simp add: handleAccept_def)
  next
    case (Some it)
    show ?thesis unfolding Accept step.simps
      by (rule inv3_coreI [OF core_handleAccept [OF Some]]) (simp add: ids_Nil)
  qed
next
  case (Reject idx)
  show ?thesis
  proof (cases "itemAt (visible (sess w)) idx")
    case None
    with assms(2) show ?thesis unfolding Reject by (simp add: handleReject_def)
  next
    case (Some it)
    from assms(2) show ?thesis unfolding Reject step.simps inv3_def [of "sess w"]
      by (intro inv3_coreI [OF core_handleReject [OF Some]])
  qed
next
  case (Analyze poem)
  show ?thesis unfolding Analyze step.simps
    by (rule inv3_coreI [OF core_analyzePoemAndSearch]) (simp add: ids_Nil)
next
  case (SetUserText t)
  from assms(2) show ?thesis unfolding SetUserText by (simp add: inv3_def)
next
  case (FetchDone k r)
  show ?thesis
  proof (cases "\<exists>app a. taskAt w k = Some (FetchTask app a)")
    case False
    then have "onFetchDone k r w = w" by (intro onFetchDone_not_fetch) blast
    with assms(2) show ?thesis unfolding FetchDone by simp
  next
    case True
    then obtain app a where t: "taskAt w k = Some (FetchTask app a)" by blast
    show ?thesis
    proof (cases r)
      case (Items its)
      let ?inc = "incomingItems (sess w) (freshItems (sess w) its)"
      have "ids ?inc \<subseteq> ids (freshItems (sess w) its)"
        using ids_incomingItems [of "sess w" "freshItems (sess w) its"] by blast
      with ids_freshItems [of "sess w" its] have ns: "ids ?inc \<inter> seenIdsRef (sess w) = {}"
        by blast
      from inv1_D [OF assms(1)] have k: "ids (kept (sess w)) \<subseteq> seenIdsRef (sess w)" by simp
      from assms(2) have qk: "ids (itemsQueue (sess w)) \<inter> ids (kept (sess w)) = {}"
        by (simp add: inv3_def)
      have "ids (if app then itemsQueue (sess w) @ ?inc else ?inc) \<inter> ids (kept (sess w)) = {}"
        using ns k qk by (cases app) (simp_all only: ids_append if_True if_False, blast+)
      then show ?thesis unfolding FetchDone Items step.simps
        by (rule inv3_coreI [OF core_onFetchDone_Items [OF t]])
    next
      case (Failed m)
      with assms(2) show ?thesis
        unfolding FetchDone by (simp add: core_eq_inv3 [OF core_onFetchDone_Failed])
    qed
  qed
next
  case (AiDone k r)
  from assms(2) show ?thesis unfolding AiDone by (simp add: core_eq_inv3 [OF core_onAiDone])
next
  case (JsonDone k a)
  from assms(2) show ?thesis unfolding JsonDone by (simp add: core_eq_inv3 [OF core_onJsonDone])
qed

lemma run_inv3:
  "inv1 (sess w) \<Longrightarrow> inv3 (sess w) \<Longrightarrow> inv3 (sess (run evs w))"
proof (induction evs arbitrary: w)
  case Nil
  then show ?case by (simp add: run_def)
next
  case (Cons e evs)
  from Cons.prems(1) have 1: "inv1 (sess (step e w))" by (rule step_inv1)
  from Cons.prems have 3: "inv3 (sess (step e w))" by (rule step_inv3)
  from 1 3 have "inv3 (sess (run evs (step e w)))" by (rule Cons.IH)
  then show ?case by (simp add: run_def)
qed

lemma initial_inv3: "inv3 (sess initialWorld)"
proof -
  have "core (sess initialWorld) = ([], [], [], {}, {})"
    by (simp add: initialWorld_def core_callFetch, simp add: core_def initialSession_def)
  then show ?thesis by (rule inv3_coreI) (simp add: ids_Nil)
qed

lemma core_fields:
  "core s = (q, v, k, si, sr) \<Longrightarrow> itemsQueue s = q \<and> visible s = v \<and> kept s = k \<and> seenIds s = si \<and> seenIdsRef s = sr"
  by (simp add: core_def)

lemma core_same_fields:
  "core s' = core s \<Longrightarrow> itemsQueue s' = itemsQueue s \<and> visible s' = visible s"
  by (simp add: core_def)

lemma ids_spliceOne: "ids (spliceOne idx xs) \<subseteq> ids xs"
proof (rule ids_mono)
  show "set (spliceOne idx xs) \<subseteq> set xs"
    by (auto simp: spliceOne_def Let_def dest: in_set_takeD in_set_dropD)
qed

lemma handleAccept_shrinks:
  "ids (visible (sess (handleAccept idx w))) \<subseteq> ids (visible (sess w))
   \<and> ids (itemsQueue (sess (handleAccept idx w))) \<subseteq> ids (itemsQueue (sess w))"
proof (cases "itemAt (visible (sess w)) idx")
  case None
  then show ?thesis by (simp add: handleAccept_def)
next
  case (Some it)
  from core_fields [OF core_handleAccept [OF Some]] show ?thesis
    by (simp add: ids_spliceOne ids_Nil)
qed

lemma handleReject_shrinks:
  "ids (visible (sess (handleReject idx w))) \<subseteq> ids (visible (sess w))
   \<and> ids (itemsQueue (sess (handleReject idx w))) \<subseteq> ids (itemsQueue (sess w))"
proof (cases "itemAt (visible (sess w)) idx")
  case None
  then show ?thesis by (simp add: handleReject_def)
next
  case (Some it)
  from core_fields [OF core_handleReject [OF Some]] show ?thesis
    by (simp add: ids_spliceOne)
qed

lemma onFetchDone_new:
  "visible (sess (onFetchDone k r w)) = visible (sess w)
   \<and> (ids (itemsQueue (sess (onFetchDone k r w))) - ids (itemsQueue (sess w))) \<inter> seenIdsRef (sess w) = {}"
proof (cases "\<exists>app a. taskAt w k = Some (FetchTask app a)")
  case False
  then have "onFetchDone k r w = w" by (intro onFetchDone_not_fetch) blast
  then show ?thesis by simp
next
  case True
  then obtain app a where t: "taskAt w k = Some (FetchTask app a)" by blast
  show ?thesis
  proof (cases r)
    case (Items its)
    let ?inc = "incomingItems (sess w) (freshItems (sess w) its)"
    have "ids ?inc \<subseteq> ids (freshItems (sess w) its)"
      using ids_incomingItems [of "sess w" "freshItems (sess w) its"] by blast
    with ids_freshItems [of "sess w" its] have ns: "ids ?inc \<inter> seenIdsRef (sess w) = {}"
      by blast
    have "(ids (if app then itemsQueue (sess w) @ ?inc else ?inc) - ids (itemsQueue (sess w)))
            \<inter> seenIdsRef (sess w) = {}"
      using ns by (cases app) (simp_all only: ids_append if_True if_False, blast+)
    with core_fields [OF core_onFetchDone_Items [OF t, of its]] show ?thesis
      unfolding Items by simp
  next
    case (Failed m)
    from core_same_fields [OF core_onFetchDone_Failed [of k m w]] show ?thesis
      unfolding Failed by simp
  qed
qed

text \<open>
  No step puts an id of the seen set into the window or the queue: what a step adds to
  either was not seen before the step.
\<close>

lemma step_new_ids:
  assumes "inv1 (sess w)"
  shows "(ids (visible (sess (step e w))) - ids (visible (sess w))) \<inter> seenIds (sess w) = {}
       \<and> (ids (itemsQueue (sess (step e w))) - ids (itemsQueue (sess w))) \<inter> seenIds (sess w) = {}"
proof -
  from inv1_D [OF assms] have eq: "seenIds (sess w) = seenIdsRef (sess w)" by simp
  show ?thesis
  proof (cases e)
    case Effect
    have "(ids (visible (fillSlots (sess w))) - ids (visible (sess w))) \<inter> seenIdsRef (sess w) = {}"
      using fillSlots_new_visible [of "sess w"] by blast
    moreover have "ids (itemsQueue (fillSlots (sess w))) - ids (itemsQueue (sess w)) = {}"
      using fillSlots_queue [of "sess w"] by blast
    ultimately show ?thesis unfolding Effect by (auto simp: topUpEffect_def eq)
  next
    case (Accept idx)
    from handleAccept_shrinks [of idx w] show ?thesis unfolding Accept by auto
  next
    case (Reject idx)
    from handleReject_shrinks [of idx w] show ?thesis unfolding Reject by auto
  next
    case (Analyze poem)
    from core_fields [OF core_analyzePoemAndSearch [of poem w]] show ?thesis
      unfolding Analyze by (simp add: ids_Nil)
  next
    case (SetUserText t)
    show ?thesis unfolding SetUserText by simp
  next
    case (FetchDone k r)
    from onFetchDone_new [of k r w] show ?thesis unfolding FetchDone by (simp add: eq)
  next
    case (AiDone k r)
    from core_same_fields [OF core_onAiDone [of k r w]] show ?thesis unfolding AiDone by simp
  next
    case (JsonDone k a)
    from core_same_fields [OF core_onJsonDone [of k a w]] show ?thesis unfolding JsonDone by simp
  qed
qed

lemma step_seen_mono:
  assumes "inv1 (sess w)"
  shows "seenIds (sess w) \<subseteq> seenIds (sess (step e w))"
proof (cases e)
  case Effect
  from inv1_D [OF assms] have eq: "seenIds (sess w) = seenIdsRef (sess w)" by simp
  have "seenIds (sess w) \<subseteq> seenIds (fillSlots (sess w))"
  proof (cases rule: fillSlots_cases [of "sess w"])
    case same
    then show ?thesis by simp
  next
    case (moved added pre q')
    show ?thesis unfolding moved(6) using eq by simp
  qed
  then show ?thesis unfolding Effect by (simp add: topUpEffect_def)
next
  case (Accept idx)
  show ?thesis
  proof (cases "itemAt (visible (sess w)) idx")
    case None
    then show ?thesis unfolding Accept by (simp add: handleAccept_def)
  next
    case (Some it)
    from core_fields [OF core_handleAccept [OF Some]] show ?thesis unfolding Accept by auto
  qed
next
  case (Reject idx)
  show ?thesis
  proof (cases "itemAt (visible (sess w)) idx")
    case None
    then show ?thesis unfolding Reject by (simp add: handleReject_def)
  next
    case (Some it)
    from core_fields [OF core_handleReject [OF Some]] show ?thesis unfolding Reject by auto
  qed
next
  case (Analyze poem)
  from core_fields [OF core_analyzePoemAndSearch [of poem w]] show ?thesis
    unfolding Analyze by simp
next
  case (SetUserText t)
  show ?thesis unfolding SetUserText by simp
next
  case (FetchDone k r)
  have "seenIds (sess (onFetchDone k r w)) = seenIds (sess w)"
  proof (cases "\<exists>app a. taskAt w k = Some (FetchTask app a)")
    case False
    then have "onFetchDone k r w = w" by (intro onFetchDone_not_fetch) blast
    then show ?thesis by simp
  next
    case True
    then obtain app a where t: "taskAt w k = Some (FetchTask app a)" by blast
    show ?thesis
    proof (cases r)
      case (Items its)
      from core_fields [OF core_onFetchDone_Items [OF t, of its]] show ?thesis
        unfolding Items by simp
    next
      case (Failed m)
      from core_onFetchDone_Failed [of k m w] show ?thesis
        unfolding Failed by (simp add: core_def)
    qed
  qed
  then show ?thesis unfolding FetchDone by simp
next
  case (AiDone k r)
  from core_onAiDone [of k r w] show ?thesis unfolding AiDone by (simp add: core_def)
next
  case (JsonDone k a)
  from core_onJsonDone [of k a w] show ?thesis unfolding JsonDone by (simp add: core_def)
qed

subsection \<open>Window bound\<close>

text \<open>
  C4. After every sequence of events from the initial page (every fetch answer, top-up
  effect, accept, reject and analysis step), the visible window holds at most
  \<^verbatim>\<open>SLOT_COUNT\<close> = 3 items, and a further call of \<^verbatim>\<open>fillSlots\<close> in that state still
  leaves at most three: it never pushes a fourth item.
\<close>

theorem window_bound:
  "length (visible (sess (run evs initialWorld))) \<le> SLOT_COUNT
   \<and> length (visible (fillSlots (sess (run evs initialWorld)))) \<le> SLOT_COUNT
   \<and> SLOT_COUNT = 3"
proof -
  have "inv1 (sess (run evs initialWorld))"
    using initial_inv by (intro run_inv1) simp
  then have "inv1 (sess (run evs initialWorld))" "inv1 (fillSlots (sess (run evs initialWorld)))"
    by (simp_all add: fillSlots_inv1)
  then show ?thesis by (simp add: inv1_def SLOT_COUNT_def)
qed

theorem window_bound_witness:
  "length (visible (sess scenarioA)) = 3 \<and> length (visible (sess scenarioA)) \<le> SLOT_COUNT
   \<and> length (visible (fillSlots (sess scenarioA))) \<le> SLOT_COUNT"
proof -
  have "length (visible (sess scenarioA)) = 3" by code_simp
  then show ?thesis
    using window_bound [of "[FetchDone 0 (Items pageOne), Effect]"] by (simp add: scenarioA_def)
qed

subsection \<open>Distinct ids within the window and within the kept list\<close>

text \<open>
  C10. After every sequence of events from the initial page, the ids of the visible
  window are pairwise distinct and the ids of the kept list are pairwise distinct,
  whatever the provider answers (also when one answer repeats an id). The reason
  holds as well: the ids on screen and the kept ids are in the seen set, the seen set
  only grows, and what a step places in the window was not in the seen set; so an
  id enters the window at most once.
\<close>

theorem window_and_kept_distinct:
  assumes "w = run evs initialWorld"
  shows "distinct (map id (visible (sess w))) \<and> distinct (map id (kept (sess w)))
       \<and> ids (visible (sess w)) \<subseteq> seenIds (sess w) \<and> ids (kept (sess w)) \<subseteq> seenIds (sess w)
       \<and> seenIds (sess w) \<subseteq> seenIds (sess (step e w))
       \<and> (ids (visible (sess (step e w))) - ids (visible (sess w))) \<inter> seenIds (sess w) = {}"
proof -
  have i: "inv1 (sess w)"
    unfolding assms using initial_inv by (intro run_inv1) simp
  from inv1_D [OF i] step_seen_mono [OF i, of e] step_new_ids [OF i, of e]
  show ?thesis by simp
qed

theorem window_and_kept_distinct_witness:
  "map id (visible (sess duplicateAnswer)) = [''x'', ''y'', ''a'']
   \<and> map id (itemsQueue (sess duplicateAnswer)) = [''a'']
   \<and> distinct (map id (visible (sess duplicateAnswer)))
   \<and> distinct (map id (kept (sess duplicateAnswer)))
   \<and> map id (visible (sess (step (Reject 0) duplicateAnswer))) = [''y'', ''a'']
   \<and> step Effect (step (Reject 0) duplicateAnswer) = step (Reject 0) duplicateAnswer
   \<and> (ids (visible (sess (step Effect duplicateAnswer))) - ids (visible (sess duplicateAnswer)))
        \<inter> seenIds (sess duplicateAnswer) = {}"
proof -
  have v: "map id (visible (sess duplicateAnswer)) = [''x'', ''y'', ''a'']" by code_simp
  have q: "map id (itemsQueue (sess duplicateAnswer)) = [''a'']" by code_simp
  have r: "map id (visible (sess (step (Reject 0) duplicateAnswer))) = [''y'', ''a'']" by code_simp
  have e: "step Effect (step (Reject 0) duplicateAnswer) = step (Reject 0) duplicateAnswer"
    by code_simp
  from window_and_kept_distinct [OF duplicateAnswer_def, of Effect]
  have d: "distinct (map id (visible (sess duplicateAnswer)))"
    "distinct (map id (kept (sess duplicateAnswer)))"
    "(ids (visible (sess (step Effect duplicateAnswer))) - ids (visible (sess duplicateAnswer)))
        \<inter> seenIds (sess duplicateAnswer) = {}"
    by blast+
  from v q r e d show ?thesis by blast
qed

subsection \<open>Dedup invariant\<close>

text \<open>
  C1. The data model has the ids of one provider answer unique within that answer.
  For every sequence of events from the initial page (fetch answers, top-up effect,
  accepts, rejects, analyses): no id is both in the visible window and in the kept
  list, no id is both in the queue and in the kept list, and whatever event \<open>e\<close> comes
  next, the ids that it adds to the window or to the queue were not in the seen set;
  and when every answer so far has listed each id once, no id of the queue is in the
  window or in the seen set. So no id is in more than one of the queue, the window
  and the kept list, and no seen id is added back to the queue or the window.
\<close>

theorem dedup_invariant:
  assumes "w = run evs initialWorld"
  shows "ids (visible (sess w)) \<inter> ids (kept (sess w)) = {}
       \<and> ids (itemsQueue (sess w)) \<inter> ids (kept (sess w)) = {}
       \<and> (ids (visible (sess (step e w))) - ids (visible (sess w))) \<inter> seenIds (sess w) = {}
       \<and> (ids (itemsQueue (sess (step e w))) - ids (itemsQueue (sess w))) \<inter> seenIds (sess w) = {}
       \<and> (list_all uniqueIds evs \<longrightarrow>
            ids (itemsQueue (sess w)) \<inter> ids (visible (sess w)) = {}
            \<and> ids (itemsQueue (sess w)) \<inter> seenIds (sess w) = {})"
proof -
  have 1: "inv1 (sess w)"
    unfolding assms using initial_inv by (intro run_inv1) simp
  have "inv3 (sess w)"
    unfolding assms using initial_inv initial_inv3 by (intro run_inv3) simp_all
  then have qk: "ids (itemsQueue (sess w)) \<inter> ids (kept (sess w)) = {}" by (simp add: inv3_def)
  from inv1_D [OF 1] have v: "ids (visible (sess w)) \<subseteq> seenIdsRef (sess w)"
    and vk: "ids (visible (sess w)) \<inter> ids (kept (sess w)) = {}"
    and eq: "seenIds (sess w) = seenIdsRef (sess w)" by simp_all
  have queue: "ids (itemsQueue (sess w)) \<inter> ids (visible (sess w)) = {}
      \<and> ids (itemsQueue (sess w)) \<inter> seenIds (sess w) = {}"
    if u: "list_all uniqueIds evs"
  proof -
    have "inv2 (sess w)"
      unfolding assms using initial_inv u by (intro run_inv2) simp_all
    then have q: "ids (itemsQueue (sess w)) \<inter> seenIdsRef (sess w) = {}" by (simp add: inv2_def)
    have a: "ids (itemsQueue (sess w)) \<inter> ids (visible (sess w)) = {}" using q v by blast
    from a q eq show ?thesis by simp
  qed
  from vk qk step_new_ids [OF 1, of e] queue show ?thesis by blast
qed

theorem dedup_invariant_witness:
  "list_all uniqueIds acceptedRun
   \<and> map id (itemsQueue (sess (run acceptedRun initialWorld))) = [''e'', ''f'']
   \<and> map id (visible (sess (run acceptedRun initialWorld))) = [''b'', ''c'', ''d'']
   \<and> map id (kept (sess (run acceptedRun initialWorld))) = [''a'']
   \<and> seenIds (sess (run acceptedRun initialWorld)) = {''a'', ''b'', ''c'', ''d''}
   \<and> ids (itemsQueue (sess (run acceptedRun initialWorld)))
        \<inter> ids (visible (sess (run acceptedRun initialWorld))) = {}
   \<and> ids (itemsQueue (sess (run acceptedRun initialWorld)))
        \<inter> ids (kept (sess (run acceptedRun initialWorld))) = {}
   \<and> ids (visible (sess (run acceptedRun initialWorld)))
        \<inter> ids (kept (sess (run acceptedRun initialWorld))) = {}
   \<and> ids (itemsQueue (sess (run acceptedRun initialWorld)))
        \<inter> seenIds (sess (run acceptedRun initialWorld)) = {}"
proof -
  have u: "list_all uniqueIds acceptedRun" by code_simp
  have w: "run acceptedRun initialWorld =
      \<lparr> sess = \<lparr> userText = ''lonely, dark, single figure, horizon'',
                 activeQuery = ''horizon dark silhouette lonely single figure'',
                 itemsQueue = [mkItem ''e'' ''Dusk'', mkItem ''f'' ''Storm''],
                 visible = [mkItem ''b'' ''Lone Tree'', mkItem ''c'' ''Night Shore'',
                            mkItem ''d'' ''Fog''],
                 kept = [mkItem ''a'' ''Dark Horizon Silhouette''],
                 seenIds = {''a'', ''b'', ''c'', ''d''}, page = 1, loading = False, error = None,
                 seenIdsRef = {''a'', ''b'', ''c'', ''d''}, fetchingRef = False,
                 currentRequestRef = 0 \<rparr>,
        pending = [] \<rparr>"
    by code_simp
  have q: "map id (itemsQueue (sess (run acceptedRun initialWorld))) = [''e'', ''f'']"
    and v: "map id (visible (sess (run acceptedRun initialWorld))) = [''b'', ''c'', ''d'']"
    and k: "map id (kept (sess (run acceptedRun initialWorld))) = [''a'']"
    and s: "seenIds (sess (run acceptedRun initialWorld)) = {''a'', ''b'', ''c'', ''d''}"
    unfolding w by (simp_all add: mkItem_def)
  from u dedup_invariant [OF refl, of acceptedRun Effect]
  have r: "ids (itemsQueue (sess (run acceptedRun initialWorld)))
        \<inter> ids (visible (sess (run acceptedRun initialWorld))) = {}"
    "ids (itemsQueue (sess (run acceptedRun initialWorld)))
        \<inter> ids (kept (sess (run acceptedRun initialWorld))) = {}"
    "ids (visible (sess (run acceptedRun initialWorld)))
        \<inter> ids (kept (sess (run acceptedRun initialWorld))) = {}"
    "ids (itemsQueue (sess (run acceptedRun initialWorld)))
        \<inter> seenIds (sess (run acceptedRun initialWorld)) = {}"
    by blast+
  from u q v k s r show ?thesis by blast
qed

subsection \<open>Slot actions outside the window\<close>

text \<open>
  C9. When the window has no item at position \<open>idx\<close> (\<open>idx\<close> negative, or at least
  the length of the window), \<^verbatim>\<open>handleAccept(idx)\<close> and \<^verbatim>\<open>handleReject(idx)\<close> return at
  once: the whole session is as before and no request has been sent.
\<close>

theorem handle_out_of_range_noop:
  "idx < 0 \<or> int (length (visible (sess w))) \<le> idx \<Longrightarrow>
     handleAccept idx w = w \<and> handleReject idx w = w"
  by (auto simp: handleAccept_def handleReject_def itemAt_def Let_def)

theorem handle_out_of_range_noop_witness:
  "length (visible (sess scenarioA)) = 3
   \<and> handleAccept 3 scenarioA = scenarioA \<and> handleReject 3 scenarioA = scenarioA
   \<and> handleAccept (- 1) scenarioA = scenarioA \<and> handleReject (- 1) scenarioA = scenarioA"
proof -
  have len: "length (visible (sess scenarioA)) = 3" by code_simp
  then have h: "(3::int) < 0 \<or> int (length (visible (sess scenarioA))) \<le> 3" by simp
  have h': "(- 1::int) < 0 \<or> int (length (visible (sess scenarioA))) \<le> - 1" by simp
  show ?thesis
    using len handle_out_of_range_noop [OF h] handle_out_of_range_noop [OF h'] by simp
qed

subsection \<open>Stale enrichment results\<close>

lemma taskAt_callFetch:
  "taskAt w k = Some t \<Longrightarrow> taskAt (callFetch app a w) k = Some t"
  by (cases a) (auto simp: callFetch_def afterFetch_def taskAt_def nth_append split: if_splits)

lemma taskAt_sess_update: "taskAt (w\<lparr> sess := s \<rparr>) k = taskAt w k"
  by (simp add: taskAt_def)

lemma currentRequestRef_callFetch:
  "currentRequestRef (sess (callFetch app (Optimistic m) w)) = currentRequestRef (sess w)"
  by (simp add: callFetch_def afterFetch_def fetchImages_begin_def)

text \<open>
  The guard at the await of the call. A run of \<^verbatim>\<open>analyzePoemAndSearch\<close> that captured
  \<open>myReq\<close> waits for \<^verbatim>\<open>/api/analyze\<close>. If the counter \<^verbatim>\<open>currentRequestRef\<close> is no longer
  \<open>myReq\<close> when the call resolves, then whatever the answer is, the session is left
  exactly as it was and nothing is sent: the answered call just leaves the pending
  tasks. In particular, when a newer \<^verbatim>\<open>analyzePoemAndSearch\<close> starts while the call is
  outstanding, the call stays outstanding, the counter moves past \<open>myReq\<close>, and the
  arrival of the answer changes nothing.
\<close>

theorem stale_enrichment_no_change:
  assumes "taskAt w k = Some (AiTask myReq optimisticGot)"
  shows "(myReq \<noteq> currentRequestRef (sess w) \<longrightarrow>
            step (AiDone k r) w = w\<lparr> pending := removeTask k (pending w) \<rparr>)
       \<and> (myReq \<le> currentRequestRef (sess w) \<longrightarrow>
            taskAt (step (Analyze poem) w) k = Some (AiTask myReq optimisticGot)
            \<and> myReq < currentRequestRef (sess (step (Analyze poem) w))
            \<and> step (AiDone k r) (step (Analyze poem) w)
                = (step (Analyze poem) w)\<lparr> pending := removeTask k (pending (step (Analyze poem) w)) \<rparr>)"
proof -
  have stale: "step (AiDone k r) v = v\<lparr> pending := removeTask k (pending v) \<rparr>"
    if "taskAt v k = Some (AiTask myReq optimisticGot)" "myReq \<noteq> currentRequestRef (sess v)" for v
    using that by (simp add: onAiDone_def onAiResponse_def analyzeFinally_def)
  let ?w' = "step (Analyze poem) w"
  have t: "taskAt ?w' k = Some (AiTask myReq optimisticGot)"
    using assms by (simp add: analyzePoemAndSearch_def Let_def taskAt_callFetch taskAt_sess_update)
  have g: "currentRequestRef (sess ?w') = currentRequestRef (sess w) + 1"
    by (simp add: analyzePoemAndSearch_def Let_def currentRequestRef_callFetch)
  show ?thesis
  proof (intro conjI impI)
    assume "myReq \<noteq> currentRequestRef (sess w)"
    with assms show "step (AiDone k r) w = w\<lparr> pending := removeTask k (pending w) \<rparr>"
      by (rule stale)
  next
    show "taskAt ?w' k = Some (AiTask myReq optimisticGot)" by (rule t)
  next
    assume "myReq \<le> currentRequestRef (sess w)"
    with g show "myReq < currentRequestRef (sess ?w')" by simp
  next
    assume "myReq \<le> currentRequestRef (sess w)"
    with g have "myReq \<noteq> currentRequestRef (sess ?w')" by simp
    with t show "step (AiDone k r) ?w' = ?w'\<lparr> pending := removeTask k (pending ?w') \<rparr>"
      by (rule stale)
  qed
qed

theorem stale_enrichment_no_change_witness:
  "taskAt oneCycle 0 = Some (AiTask 1 1) \<and> currentRequestRef (sess oneCycle) = 1
   \<and> twoCycles = step (Analyze ''urban night'') oneCycle
   \<and> taskAt twoCycles 0 = Some (AiTask 1 1) \<and> currentRequestRef (sess twoCycles) = 2
   \<and> step (AiDone 0 AiOk) twoCycles = twoCycles\<lparr> pending := removeTask 0 (pending twoCycles) \<rparr>
   \<and> step (AiDone 0 AiNull) twoCycles = twoCycles\<lparr> pending := removeTask 0 (pending twoCycles) \<rparr>
   \<and> sess (step (AiDone 0 AiOk) twoCycles) = sess twoCycles"
proof -
  have t: "taskAt oneCycle 0 = Some (AiTask 1 1)" by code_simp
  have g: "currentRequestRef (sess oneCycle) = 1" by code_simp
  have e: "twoCycles = step (Analyze ''urban night'') oneCycle"
    by (simp add: twoCycles_def oneCycle_def run_def)
  have t2: "taskAt twoCycles 0 = Some (AiTask 1 1)" by code_simp
  have g2: "currentRequestRef (sess twoCycles) = 2" by code_simp
  from stale_enrichment_no_change [OF t, of AiOk "''urban night''"] g e
  have a: "step (AiDone 0 AiOk) twoCycles = twoCycles\<lparr> pending := removeTask 0 (pending twoCycles) \<rparr>"
    by simp
  from stale_enrichment_no_change [OF t2, of AiNull] g2
  have b: "step (AiDone 0 AiNull) twoCycles = twoCycles\<lparr> pending := removeTask 0 (pending twoCycles) \<rparr>"
    by simp
  from t g e t2 g2 a b show ?thesis by simp
qed

text \<open>
  C2. The claim: when the counter is incremented while the enrichment call of an
  older run is outstanding, the arrival of the older result changes nothing in the
  session. The code checks the counter when \<^verbatim>\<open>fetch("/api/analyze")\<close> resolves and after
  the refined fetch, but not after \<^verbatim>\<open>await aiResp.json()\<close> nor in its \<^verbatim>\<open>catch\<close> block.
  So when the newer run starts while the body of the older answer is read, the
  older result is not discarded. Here run 1 reads its body and run 2 has set the
  counter to 2. If the body does not parse, the error, which was \<^verbatim>\<open>null\<close>, is set.
  If it parses to a query after the optimistic fetch of run 2 was answered, run 1
  sends its refined fetch, which sets the loading flag, and the answer to that fetch
  replaces the queue of run 2.
\<close>

theorem stale_body_changes_session:
  "taskAt staleBody 0 = Some (JsonTask 1 1) \<and> currentRequestRef (sess staleBody) = 2
   \<and> error (sess staleBody) = None
   \<and> error (sess (step (JsonDone 0 (Throws (Some ''Unexpected token < in JSON''))) staleBody))
       = Some ''Unexpected token < in JSON''
   \<and> taskAt staleBodyFetched 0 = Some (JsonTask 1 1)
   \<and> currentRequestRef (sess staleBodyFetched) = 2
   \<and> loading (sess staleBodyFetched) = False
   \<and> map id (itemsQueue (sess staleBodyFetched)) = [''m'']
   \<and> loading (sess (step (JsonDone 0 (Query ''storm clouds '')) staleBodyFetched)) = True
   \<and> pending (step (JsonDone 0 (Query ''storm clouds '')) staleBodyFetched)
       = [AiTask 2 4, FetchTask False (Refined 1 1 ''storm clouds'')]
   \<and> map id (itemsQueue (sess (run [JsonDone 0 (Query ''storm clouds ''),
          FetchDone 1 (Items [mkItem ''n'' ''Storm Clouds'', mkItem ''o'' ''Thunder''])]
          staleBodyFetched))) = [''n'', ''o'']"
proof -
  have a: "taskAt staleBody 0 = Some (JsonTask 1 1)" "currentRequestRef (sess staleBody) = 2"
    "error (sess staleBody) = None"
    "error (sess (step (JsonDone 0 (Throws (Some ''Unexpected token < in JSON''))) staleBody))
       = Some ''Unexpected token < in JSON''"
    by code_simp+
  have b: "taskAt staleBodyFetched 0 = Some (JsonTask 1 1)"
    "currentRequestRef (sess staleBodyFetched) = 2"
    "loading (sess staleBodyFetched) = False"
    "map id (itemsQueue (sess staleBodyFetched)) = [''m'']"
    by code_simp+
  have c: "loading (sess (step (JsonDone 0 (Query ''storm clouds '')) staleBodyFetched)) = True"
    "pending (step (JsonDone 0 (Query ''storm clouds '')) staleBodyFetched)
       = [AiTask 2 4, FetchTask False (Refined 1 1 ''storm clouds'')]"
    "map id (itemsQueue (sess (run [JsonDone 0 (Query ''storm clouds ''),
          FetchDone 1 (Items [mkItem ''n'' ''Storm Clouds'', mkItem ''o'' ''Thunder''])]
          staleBodyFetched))) = [''n'', ''o'']"
    by code_simp+
  from a b c show ?thesis by (intro conjI)
qed

subsection \<open>Failed enrichment\<close>

text \<open>
  C5, as amended. When the call of \<^verbatim>\<open>/api/analyze\<close> times out, is aborted, fails on
  the network or returns a status that is not OK, the orchestrator changes nothing
  but the loading flag, which it clears if the run is still the current one: queue,
  window, kept list, seen set, query, page and error stay as they are, and nothing
  is sent. A status that is not OK is handled exactly like a timeout. When the
  status is OK and the body cannot be read as JSON, queue, window, kept list, seen
  set, query and page stay as they are too, but the error is set to the message of
  the exception (\<^verbatim>\<open>Analysis failed\<close> if it has none).
\<close>

theorem enrichment_failure_handling:
  "(taskAt w k = Some (AiTask myReq optimisticGot) \<and> (r = AiNull \<or> r = AiNotOk) \<longrightarrow>
      step (AiDone k r) w =
        w\<lparr> sess := (if myReq = currentRequestRef (sess w) then (sess w)\<lparr> loading := False \<rparr>
                     else sess w),
           pending := removeTask k (pending w) \<rparr>)
   \<and> (taskAt w k = Some (JsonTask myReq optimisticGot) \<longrightarrow>
      step (JsonDone k (Throws msg)) w =
        w\<lparr> sess := (if myReq = currentRequestRef (sess w)
                     then (sess w)\<lparr> error := Some (case msg of None \<Rightarrow> ''Analysis failed'' | Some m \<Rightarrow> m),
                                   loading := False \<rparr>
                     else (sess w)\<lparr> error := Some (case msg of None \<Rightarrow> ''Analysis failed'' | Some m \<Rightarrow> m) \<rparr>),
           pending := removeTask k (pending w) \<rparr>)"
proof (intro conjI impI)
  assume "taskAt w k = Some (AiTask myReq optimisticGot) \<and> (r = AiNull \<or> r = AiNotOk)"
  then show "step (AiDone k r) w =
      w\<lparr> sess := (if myReq = currentRequestRef (sess w) then (sess w)\<lparr> loading := False \<rparr>
                   else sess w),
         pending := removeTask k (pending w) \<rparr>"
    by (auto simp: onAiDone_def onAiResponse_def analyzeFinally_def)
next
  assume "taskAt w k = Some (JsonTask myReq optimisticGot)"
  then show "step (JsonDone k (Throws msg)) w =
      w\<lparr> sess := (if myReq = currentRequestRef (sess w)
                   then (sess w)\<lparr> error := Some (case msg of None \<Rightarrow> ''Analysis failed'' | Some m \<Rightarrow> m),
                                 loading := False \<rparr>
                   else (sess w)\<lparr> error := Some (case msg of None \<Rightarrow> ''Analysis failed'' | Some m \<Rightarrow> m) \<rparr>),
         pending := removeTask k (pending w) \<rparr>"
    by (simp add: onJsonDone_def onAnalysis_def analyzeFinally_def)
qed

theorem enrichment_failure_handling_witness:
  "taskAt oneCycle 0 = Some (AiTask 1 1) \<and> currentRequestRef (sess oneCycle) = 1
   \<and> step (AiDone 0 AiNull) oneCycle
       = oneCycle\<lparr> sess := (sess oneCycle)\<lparr> loading := False \<rparr>, pending := [] \<rparr>
   \<and> step (AiDone 0 AiNotOk) oneCycle = step (AiDone 0 AiNull) oneCycle
   \<and> error (sess (step (AiDone 0 AiNotOk) oneCycle)) = None
   \<and> taskAt bodyPending 0 = Some (JsonTask 1 1)
   \<and> step (JsonDone 0 (Throws None)) bodyPending
       = bodyPending\<lparr> sess := (sess bodyPending)\<lparr> error := Some ''Analysis failed'', loading := False \<rparr>,
                      pending := [] \<rparr>"
proof -
  have t: "taskAt oneCycle 0 = Some (AiTask 1 1)" by code_simp
  have g: "currentRequestRef (sess oneCycle) = 1" by code_simp
  have p: "removeTask 0 (pending oneCycle) = []" by code_simp
  have e: "error (sess oneCycle) = None" by code_simp
  have t': "taskAt bodyPending 0 = Some (JsonTask 1 1)" by code_simp
  have g': "currentRequestRef (sess bodyPending) = 1" by code_simp
  have p': "removeTask 0 (pending bodyPending) = []" by code_simp
  show ?thesis
    using t g p e t' g' p'
      enrichment_failure_handling [of oneCycle 0 1 1 AiNull]
      enrichment_failure_handling [of oneCycle 0 1 1 AiNotOk]
      enrichment_failure_handling [of bodyPending 0 1 1 _ None]
    by simp
qed

text \<open>
  The claim as stated fails for an OK answer whose body does not parse: the error
  was \<^verbatim>\<open>null\<close> and is set.
\<close>

theorem unparseable_body_sets_error:
  "taskAt bodyPending 0 = Some (JsonTask 1 1)
   \<and> error (sess bodyPending) = None
   \<and> error (sess (step (JsonDone 0 (Throws (Some ''Unexpected token < in JSON''))) bodyPending))
       = Some ''Unexpected token < in JSON''"
  by code_simp

subsection \<open>The number returned by \<^verbatim>\<open>fetchImages\<close>\<close>

text \<open>
  C6, as amended. A call of \<^verbatim>\<open>fetchImages\<close> whose request was answered returns the
  number of fetched items that are not in the seen set, and 0 when the request
  failed. The items added to the queue are those survivors whose id is not in the
  queue at that moment, appended in append mode and replacing the queue otherwise.
  So the number returned is at least the number of items added; it is equal when no
  survivor is in the queue already and greater otherwise. A call made while a fetch
  is in flight returns 0 at once and changes nothing.
\<close>

theorem fetch_returns_fresh_count:
  "fst (fetchImages_end app (Items its) s) = length (freshItems s its)
   \<and> fst (fetchImages_end app (Failed m) s) = 0
   \<and> itemsQueue (snd (fetchImages_end app (Items its) s))
       = (if app then itemsQueue s @ incomingItems s (freshItems s its)
          else incomingItems s (freshItems s its))
   \<and> itemsQueue (snd (fetchImages_end app (Failed m) s)) = itemsQueue s
   \<and> length (incomingItems s (freshItems s its)) \<le> fst (fetchImages_end app (Items its) s)
   \<and> (if ids (freshItems s its) \<inter> ids (itemsQueue s) = {}
      then fst (fetchImages_end app (Items its) s) = length (incomingItems s (freshItems s its))
      else length (incomingItems s (freshItems s its)) < fst (fetchImages_end app (Items its) s))
   \<and> (fetchingRef (sess w) \<longrightarrow> callFetch app a w = afterFetch a 0 w)"
proof -
  have le: "length (incomingItems s (freshItems s its)) \<le> length (freshItems s its)"
    by (simp add: incomingItems_def)
  have eq: "incomingItems s (freshItems s its) = freshItems s its"
    if "ids (freshItems s its) \<inter> ids (itemsQueue s) = {}"
    using that by (auto simp: incomingItems_def ids_def filter_id_conv)
  have lt: "length (incomingItems s (freshItems s its)) < length (freshItems s its)"
    if "ids (freshItems s its) \<inter> ids (itemsQueue s) \<noteq> {}"
  proof -
    from that obtain x where x: "x \<in> set (freshItems s its)" "id x \<in> set (map id (itemsQueue s))"
      by (auto simp: ids_def)
    then have "length (filter (\<lambda>it. id it \<notin> set (map id (itemsQueue s))) (freshItems s its))
        < length (freshItems s its)"
      by (intro length_filter_less [of x]) simp_all
    then show ?thesis by (simp add: incomingItems_def)
  qed
  show ?thesis
    using le eq lt by (simp add: fetchImages_end_def Let_def callFetch_def)
qed

theorem fetch_returns_fresh_count_witness:
  "fst (fetchImages_end True (Items pageTwo) (sess afterReject)) = 2
   \<and> length (freshItems (sess afterReject) pageTwo) = 2
   \<and> fst (fetchImages_end False (Failed None) (sess afterReject)) = 0
   \<and> fetchingRef (sess afterReject)
   \<and> callFetch True Plain afterReject = afterReject"
proof -
  have n: "length (freshItems (sess afterReject) pageTwo) = 2" by code_simp
  have f: "fetchingRef (sess afterReject)" by code_simp
  from n f fetch_returns_fresh_count [of True pageTwo "sess afterReject" None afterReject Plain]
    fetch_returns_fresh_count [of False pageTwo "sess afterReject" None afterReject Plain]
  show ?thesis by (simp add: afterFetch_def)
qed

text \<open>
  The claim as stated fails when the next page repeats a queued item: the call
  returns 2 and one item is added.
\<close>

theorem fetch_count_counterexample:
  "taskAt afterReject 0 = Some (FetchTask True Plain)
   \<and> map id (visible (sess afterReject)) = [''b'', ''c'', ''d'']
   \<and> map id (itemsQueue (sess afterReject)) = [''e'']
   \<and> fst (fetchImages_end True (Items pageTwo) (sess afterReject)) = 2
   \<and> map id (incomingItems (sess afterReject) (freshItems (sess afterReject) pageTwo)) = [''f'']
   \<and> map id (itemsQueue (snd (fetchImages_end True (Items pageTwo) (sess afterReject))))
       = [''e'', ''f'']
   \<and> map id (itemsQueue (sess (step (FetchDone 0 (Items pageTwo)) afterReject))) = [''e'', ''f'']
   \<and> fst (fetchImages_end True (Items pageTwo) (sess afterReject))
       \<noteq> length (incomingItems (sess afterReject) (freshItems (sess afterReject) pageTwo))"
  by code_simp

subsection \<open>Scenario B\<close>

lemma scenarioB_keywords:
  "topKeywords
     (scoreTokensFrom ''Dark Horizon Silhouette'' (roundDouble (9 / 5))
        (scoreTokensFrom ''lonely, dark, single figure, horizon'' 1
           (preseedColorHintsFromUserText [] ''lonely, dark, single figure, horizon''))) 12
   = [''horizon'', ''dark'', ''silhouette'', ''lonely'', ''single'', ''figure'']"
  by code_simp

text \<open>
  C3, as amended. With \<^verbatim>\<open>activeQuery\<close> and \<^verbatim>\<open>userText\<close> both
  \<^verbatim>\<open>lonely, dark, single figure, horizon\<close> and nothing kept, \<^verbatim>\<open>refineQueryWith\<close> on an
  item titled \<^verbatim>\<open>Dark Horizon Silhouette\<close> returns
  \<^verbatim>\<open>horizon dark silhouette lonely single figure\<close>: the keywords \<open>horizon\<close>, \<open>dark\<close> and
  \<open>silhouette\<close> come first, and \<open>lonely\<close> is kept as the fourth keyword, since the six
  scored words have six roots and up to twelve keywords are taken.
\<close>

theorem scenarioB_refined_query:
  assumes "activeQuery s = ''lonely, dark, single figure, horizon''"
    and "userText s = ''lonely, dark, single figure, horizon''"
    and "kept s = []" and "title it = ''Dark Horizon Silhouette''"
  shows "refineKeywords it s = [''horizon'', ''dark'', ''silhouette'', ''lonely'', ''single'', ''figure'']
       \<and> refineQueryWith it s = ''horizon dark silhouette lonely single figure''"
proof -
  have k: "refineKeywords it s = [''horizon'', ''dark'', ''silhouette'', ''lonely'', ''single'', ''figure'']"
    unfolding refineKeywords_def Let_def assms using scenarioB_keywords by simp
  show ?thesis unfolding refineQueryWith_def k by simp
qed

theorem scenarioB_refined_query_witness:
  "activeQuery (sess scenarioA) = ''lonely, dark, single figure, horizon''
   \<and> kept (sess scenarioA) = []
   \<and> itemAt (visible (sess scenarioA)) 0 = Some (mkItem ''a'' ''Dark Horizon Silhouette'')
   \<and> refineQueryWith (mkItem ''a'' ''Dark Horizon Silhouette'') (sess scenarioA)
       = ''horizon dark silhouette lonely single figure''"
proof -
  have a: "activeQuery (sess scenarioA) = ''lonely, dark, single figure, horizon''" by code_simp
  have u: "userText (sess scenarioA) = ''lonely, dark, single figure, horizon''" by code_simp
  have k: "kept (sess scenarioA) = []" by code_simp
  have t: "title (mkItem ''a'' ''Dark Horizon Silhouette'') = ''Dark Horizon Silhouette''"
    by (simp add: mkItem_def)
  have i: "itemAt (visible (sess scenarioA)) 0 = Some (mkItem ''a'' ''Dark Horizon Silhouette'')"
    by code_simp
  from a k i scenarioB_refined_query [OF a u k t] show ?thesis by simp
qed

text \<open>The claim as stated fails: \<open>lonely\<close> is among the keywords.\<close>

theorem scenarioB_excludes_lonely_counterexample:
  "\<not> (''dark'' \<in> set (refineKeywords (mkItem ''a'' ''Dark Horizon Silhouette'') (sess scenarioA))
      \<and> ''horizon'' \<in> set (refineKeywords (mkItem ''a'' ''Dark Horizon Silhouette'') (sess scenarioA))
      \<and> ''silhouette'' \<in> set (refineKeywords (mkItem ''a'' ''Dark Horizon Silhouette'') (sess scenarioA))
      \<and> ''lonely'' \<notin> set (refineKeywords (mkItem ''a'' ''Dark Horizon Silhouette'') (sess scenarioA)))"
proof -
  have a: "activeQuery (sess scenarioA) = ''lonely, dark, single figure, horizon''" by code_simp
  have u: "userText (sess scenarioA) = ''lonely, dark, single figure, horizon''" by code_simp
  have k: "kept (sess scenarioA) = []" by code_simp
  have t: "title (mkItem ''a'' ''Dark Horizon Silhouette'') = ''Dark Horizon Silhouette''"
    by (simp add: mkItem_def)
  have "refineKeywords (mkItem ''a'' ''Dark Horizon Silhouette'') (sess scenarioA)
      = [''horizon'', ''dark'', ''silhouette'', ''lonely'', ''single'', ''figure'']"
    unfolding refineKeywords_def Let_def a u k t using scenarioB_keywords by simp
  then show ?thesis by simp
qed

subsection \<open>Fallback of \<^verbatim>\<open>refineQueryWith\<close>\<close>

lemma keys_bump: "fst ` set (bump w inc sc) = insert w (fst ` set sc)"
  by (simp add: bump_def dom_update)

lemma keys_scoreTokens:
  "[] \<notin> fst ` set sc \<Longrightarrow> [] \<notin> fst ` set (scoreTokens ws weight sc)"
proof (induction ws arbitrary: sc)
  case Nil
  then show ?case by simp
next
  case (Cons w ws)
  show ?case
  proof (cases "w \<in> set STOP \<or> length w < 3")
    case True
    with Cons show ?thesis by simp
  next
    case False
    then have "w \<noteq> []" by auto
    with Cons.prems have
      "[] \<notin> fst ` set (bump w (mulDouble (mulDouble weight (posBias w)) (domainBias w)) sc)"
      by (simp add: keys_bump)
    from Cons.IH [OF this] False show ?thesis by simp
  qed
qed

lemma keys_preseedTokens:
  "[] \<notin> fst ` set sc \<Longrightarrow> [] \<notin> fst ` set (preseedTokens ws sc)"
proof (induction ws arbitrary: sc)
  case Nil
  then show ?case by simp
next
  case (Cons w ws)
  show ?case
  proof (cases "w \<in> set COLOR_WORDS")
    case False
    with Cons show ?thesis by simp
  next
    case True
    have "[] \<notin> set COLOR_WORDS" by (simp add: COLOR_WORDS_def)
    with True have "w \<noteq> []" by auto
    with Cons.prems have "[] \<notin> fst ` set (bump w (roundDouble (3 / 5)) sc)"
      by (simp add: keys_bump)
    from Cons.IH [OF this] True show ?thesis by simp
  qed
qed

lemma keys_fold_kept:
  "[] \<notin> fst ` set sc \<Longrightarrow>
     [] \<notin> fst ` set (fold (\<lambda>k sc. scoreTokensFrom (title k) weight sc) ks sc)"
  by (induction ks arbitrary: sc) (simp_all add: scoreTokensFrom_def keys_scoreTokens)

lemma set_pickWords: "set (pickWords mx ws picked roots) \<subseteq> set picked \<union> set ws"
  by (induction mx ws picked roots rule: pickWords.induct) (auto simp: Let_def)

lemma set_objectEntries: "set (objectEntries sc) = set sc"
  by (auto simp: objectEntries_def)

lemma set_topKeywords: "set (topKeywords sc mx) \<subseteq> fst ` set sc"
  using set_pickWords [of mx "map fst (sort_key (\<lambda>p. - snd p) (objectEntries sc))" "[]" "{}"]
  by (simp add: topKeywords_def set_objectEntries)

lemma refineKeywords_nonempty_words: "[] \<notin> set (refineKeywords it s)"
proof -
  have 0: "[] \<notin> fst ` set (preseedColorHintsFromUserText [] (userText s))"
    by (simp add: preseedColorHintsFromUserText_def keys_preseedTokens)
  then have 1: "[] \<notin> fst ` set (scoreTokensFrom (activeQuery s) 1
      (preseedColorHintsFromUserText [] (userText s)))"
    by (simp add: scoreTokensFrom_def keys_scoreTokens)
  then have 2: "[] \<notin> fst ` set (fold (\<lambda>k sc. scoreTokensFrom (title k) (roundDouble (7 / 5)) sc) (take 5 (kept s))
      (scoreTokensFrom (activeQuery s) 1 (preseedColorHintsFromUserText [] (userText s))))"
    by (rule keys_fold_kept)
  then have 3: "[] \<notin> fst ` set (scoreTokensFrom (title it) (roundDouble (9 / 5))
      (fold (\<lambda>k sc. scoreTokensFrom (title k) (roundDouble (7 / 5)) sc) (take 5 (kept s))
      (scoreTokensFrom (activeQuery s) 1 (preseedColorHintsFromUserText [] (userText s)))))"
    by (simp add: scoreTokensFrom_def keys_scoreTokens)
  with set_topKeywords show ?thesis
    unfolding refineKeywords_def Let_def by blast
qed

lemma joinSpace_Nil_iff: "joinSpace ws = [] \<longleftrightarrow> ws = [] \<or> ws = [[]]"
  by (induction ws rule: joinSpace.induct) simp_all

text \<open>
  C7. When \<^verbatim>\<open>activeQuery\<close> is not empty, \<^verbatim>\<open>refineQueryWith\<close> returns a string that
  is not empty, for every item and every session. When the scoring yields no keyword
  the string returned is the current \<^verbatim>\<open>activeQuery\<close>; otherwise it is the keywords
  joined by single spaces.
\<close>

theorem refine_fallback_nonempty:
  "activeQuery s \<noteq> [] \<Longrightarrow>
     refineQueryWith it s \<noteq> []
     \<and> (refineKeywords it s = [] \<longrightarrow> refineQueryWith it s = activeQuery s)
     \<and> (refineKeywords it s \<noteq> [] \<longrightarrow> refineQueryWith it s = joinSpace (refineKeywords it s))"
  using refineKeywords_nonempty_words [of it s]
  by (auto simp: refineQueryWith_def Let_def joinSpace_Nil_iff)

theorem refine_fallback_nonempty_witness:
  "activeQuery stopWordsOnly \<noteq> [] \<and> refineKeywords (mkItem ''z'' ''To Be'') stopWordsOnly = []
   \<and> refineQueryWith (mkItem ''z'' ''To Be'') stopWordsOnly = ''of the''
   \<and> activeQuery (sess scenarioA) \<noteq> []
   \<and> refineKeywords (mkItem ''b'' ''Lone Tree'') (sess scenarioA)
       = [''lone'', ''tree'', ''horizon'', ''dark'', ''single'', ''figure'']
   \<and> refineQueryWith (mkItem ''b'' ''Lone Tree'') (sess scenarioA)
       = joinSpace [''lone'', ''tree'', ''horizon'', ''dark'', ''single'', ''figure'']"
proof -
  have a: "activeQuery stopWordsOnly = ''of the''" by code_simp
  then have n: "activeQuery stopWordsOnly \<noteq> []" by simp
  have k: "refineKeywords (mkItem ''z'' ''To Be'') stopWordsOnly = []" by code_simp
  have a': "activeQuery (sess scenarioA) = ''lonely, dark, single figure, horizon''" by code_simp
  then have n': "activeQuery (sess scenarioA) \<noteq> []" by simp
  have k': "refineKeywords (mkItem ''b'' ''Lone Tree'') (sess scenarioA)
      = [''lone'', ''tree'', ''horizon'', ''dark'', ''single'', ''figure'']"
    by code_simp
  from a n k refine_fallback_nonempty [OF n, of "mkItem ''z'' ''To Be''"]
  have 1: "refineQueryWith (mkItem ''z'' ''To Be'') stopWordsOnly = ''of the''" by simp
  from k' refine_fallback_nonempty [OF n', of "mkItem ''b'' ''Lone Tree''"]
  have 2: "refineQueryWith (mkItem ''b'' ''Lone Tree'') (sess scenarioA)
      = joinSpace [''lone'', ''tree'', ''horizon'', ''dark'', ''single'', ''figure'']"
    by simp
  from n k n' k' 1 2 show ?thesis by simp
qed

subsection \<open>Colour hints\<close>

lemma map_of_bump:
  "map_of (bump w inc sc) = (map_of sc)(w \<mapsto> addDouble (scoreOr0 sc w) inc)"
  by (simp add: bump_def update_conv')

lemma scoreOr0_bump:
  "scoreOr0 (bump x inc sc) w = (if w = x then addDouble (scoreOr0 sc x) inc else scoreOr0 sc w)"
  by (simp add: scoreOr0_def map_of_bump)

text \<open>
  C8, as amended. For every score table and every text,
  \<^verbatim>\<open>preseedColorHintsFromUserText\<close> does one double addition of \<^verbatim>\<open>0.6\<close> for each
  occurrence of a colour word among the tokens of the text, whatever the length of
  the word and whether or not it is a stop word: a colour word that occurs \<open>k > 0\<close>
  times ends with the result of adding \<^verbatim>\<open>0.6\<close> to its former score (0 if it had none)
  \<open>k\<close> times in a row, each sum rounded to a double, and every other entry of the table
  is as before.
\<close>

theorem preseed_adds_per_occurrence:
  "map_of (preseedColorHintsFromUserText sc text) w =
     (if w \<in> set COLOR_WORDS \<and> 0 < count_list (tokenize text) w
      then Some (((\<lambda>v. addDouble v (roundDouble (3 / 5))) ^^ count_list (tokenize text) w)
                   (scoreOr0 sc w))
      else map_of sc w)"
proof -
  let ?f = "\<lambda>v. addDouble v (roundDouble (3 / 5))"
  have sw: "(?f ^^ n) (addDouble a (roundDouble (3 / 5))) = addDouble ((?f ^^ n) a) (roundDouble (3 / 5))"
    for n a
    using funpow_swap1 [of ?f n a] by simp
  have "map_of (preseedTokens ws sc) w =
     (if w \<in> set COLOR_WORDS \<and> 0 < count_list ws w
      then Some ((?f ^^ count_list ws w) (scoreOr0 sc w))
      else map_of sc w)" for ws
  proof (induction ws arbitrary: sc)
    case Nil
    then show ?case by simp
  next
    case (Cons x ws)
    show ?case
    proof (cases "x \<in> set COLOR_WORDS")
      case False
      then show ?thesis using Cons.IH [of sc] by auto
    next
      case True
      show ?thesis
      proof (cases "w = x")
        case False
        with True show ?thesis
          using Cons.IH [of "bump x (roundDouble (3 / 5)) sc"]
          by (simp add: map_of_bump scoreOr0_bump)
      next
        case same: True
        with True show ?thesis
          using Cons.IH [of "bump x (roundDouble (3 / 5)) sc"]
          by (simp add: map_of_bump scoreOr0_bump sw)
      qed
    qed
  qed
  then show ?thesis by (simp only: preseedColorHintsFromUserText_def)
qed

theorem preseed_adds_per_occurrence_witness:
  "count_list (tokenize ''Red sky, red sea: the tan is RED'') ''red'' = 3
   \<and> map_of (preseedColorHintsFromUserText [(''sky'', 1), (''red'', 2)]
              ''Red sky, red sea: the tan is RED'') ''red''
       = Some (addDouble (addDouble (addDouble 2 (roundDouble (3 / 5))) (roundDouble (3 / 5)))
                 (roundDouble (3 / 5)))
   \<and> map_of (preseedColorHintsFromUserText [(''sky'', 1), (''red'', 2)]
              ''Red sky, red sea: the tan is RED'') ''tan'' = Some (addDouble 0 (roundDouble (3 / 5)))
   \<and> map_of (preseedColorHintsFromUserText [(''sky'', 1), (''red'', 2)]
              ''Red sky, red sea: the tan is RED'') ''sky'' = Some 1
   \<and> map_of (preseedColorHintsFromUserText [(''sky'', 1), (''red'', 2)]
              ''Red sky, red sea: the tan is RED'') ''sea'' = None"
proof -
  let ?t = "''Red sky, red sea: the tan is RED''"
  have c: "count_list (tokenize ?t) ''red'' = Suc (Suc (Suc 0))" "count_list (tokenize ?t) ''tan'' = Suc 0"
    by code_simp+
  have m: "''red'' \<in> set COLOR_WORDS" "''tan'' \<in> set COLOR_WORDS"
    "''sky'' \<notin> set COLOR_WORDS" "''sea'' \<notin> set COLOR_WORDS"
    by code_simp+
  show ?thesis
    using c m
      preseed_adds_per_occurrence [of "[(''sky'', 1), (''red'', 2)]" ?t "''red''"]
      preseed_adds_per_occurrence [of "[(''sky'', 1), (''red'', 2)]" ?t "''tan''"]
      preseed_adds_per_occurrence [of "[(''sky'', 1), (''red'', 2)]" ?t "''sky''"]
      preseed_adds_per_occurrence [of "[(''sky'', 1), (''red'', 2)]" ?t "''sea''"]
    by (simp add: scoreOr0_def)
qed

text \<open>
  The claim as stated fails: the \<open>k\<close> rounded sums need not make \<open>k\<close> times 0.6. From
  the score 2, three occurrences give 3.8000000000000003, which is neither the exact
  \<open>2 + 3 \<times> 0.6\<close>, nor the double nearest to it, nor what the doubles give for
  \<^verbatim>\<open>2 + 3 * 0.6\<close>.
\<close>

theorem preseed_k_times_counterexample:
  "count_list (tokenize ''Red sky, red sea: the tan is RED'') ''red'' = 3
   \<and> scoreOr0 [(''sky'', 1), (''red'', 2)] ''red'' = 2
   \<and> map_of (preseedColorHintsFromUserText [(''sky'', 1), (''red'', 2)]
              ''Red sky, red sea: the tan is RED'') ''red''
       = Some (8556839292003943 / 2251799813685248)
   \<and> map_of (preseedColorHintsFromUserText [(''sky'', 1), (''red'', 2)]
              ''Red sky, red sea: the tan is RED'') ''red''
       \<noteq> Some (2 + 3 * (3 / 5))
   \<and> map_of (preseedColorHintsFromUserText [(''sky'', 1), (''red'', 2)]
              ''Red sky, red sea: the tan is RED'') ''red''
       \<noteq> Some (roundDouble (2 + 3 * (3 / 5)))
   \<and> map_of (preseedColorHintsFromUserText [(''sky'', 1), (''red'', 2)]
              ''Red sky, red sea: the tan is RED'') ''red''
       \<noteq> Some (2 + 3 * roundDouble (3 / 5))
   \<and> map_of (preseedColorHintsFromUserText [(''sky'', 1), (''red'', 2)]
              ''Red sky, red sea: the tan is RED'') ''red''
       \<noteq> Some (addDouble 2 (mulDouble 3 (roundDouble (3 / 5))))"
proof -
  have e: "map_of (preseedColorHintsFromUserText [(''sky'', 1), (''red'', 2)]
              ''Red sky, red sea: the tan is RED'') ''red''
       = Some (8556839292003943 / 2251799813685248)"
    by code_simp
  have c: "count_list (tokenize ''Red sky, red sea: the tan is RED'') ''red'' = 3"
    "scoreOr0 [(''sky'', 1), (''red'', 2)] ''red'' = 2"
    by code_simp+
  have r: "roundDouble (2 + 3 * (3 / 5)) = 8556839292003942 / 2251799813685248"
    "2 + 3 * roundDouble (3 / 5) = 34227357168015769 / 9007199254740992"
    "addDouble 2 (mulDouble 3 (roundDouble (3 / 5))) = 8556839292003942 / 2251799813685248"
    by code_simp+
  show ?thesis unfolding e r using c by simp
qed

end
